theory Spec2Isabelle
  imports Main "HOL-Library.Char_ord" "HOL-Library.List_Lexorder" "HOL-Library.Sublist"
    "HOL-Library.Multiset"
begin

section \<open>all-keywords: the keyword table generator\<close>

text \<open>
  A shallow embedding of \<^verbatim>\<open>pkg/cmd/all-keywords/main.go\<close>. Go strings are byte
  sequences, so a Go string is a \<^typ>\<open>string\<close> (a list of 8-bit characters); Go's
  \<^verbatim>\<open><\<close> on strings is the bytewise lexicographic order, which is the order of
  \<^typ>\<open>string\<close> given by \<open>Char_ord\<close> and \<open>List_Lexorder\<close>.

  The program is one function, \<^verbatim>\<open>main\<close>. Its local variables \<^verbatim>\<open>keyword\<close>, \<^verbatim>\<open>category\<close>,
  \<^verbatim>\<open>seen\<close> and \<^verbatim>\<open>data\<close> are the fields of a record that each iteration of the loop
  returns updated; each \<^verbatim>\<open>log.Fatal\<close> is a value of the type \<open>fatal\<close>. What the program
  takes from the Go library is modelled by what the library does on the values the program
  passes: the two regular expressions, the line scanner with its limit on the length of a
  line, \<^verbatim>\<open>strings.ToLower\<close>, \<^verbatim>\<open>sort.Slice\<close> and the template. Two things are left open.
  The lower-casing of text that is not ASCII needs the Unicode tables, so it is a parameter
  \<open>mapLower\<close> of every definition that reaches it, and every theorem holds for every such
  function. The failures of the two streams belong to the environment of a run: whether
  reading standard input ends in an error, and how many bytes standard output takes before
  a write fails.
\<close>

subsection \<open>Bytes\<close>

definition newline :: char where
  "newline = CHR 0x0A"

definition carriage_return :: char where
  "carriage_return = CHR 0x0D"

definition isUpperAZ :: "char \<Rightarrow> bool" where
  \<comment> \<open>the character class \<^verbatim>\<open>[A-Z]\<close>\<close>
  "isUpperAZ c = (CHR ''A'' \<le> c \<and> c \<le> CHR ''Z'')"

definition dot :: "char \<Rightarrow> bool" where
  \<comment> \<open>the regular expression \<^verbatim>\<open>.\<close> (no \<^verbatim>\<open>s\<close> flag): any character but a newline\<close>
  "dot c = (c \<noteq> newline)"

definition isLowerAZ :: "char \<Rightarrow> bool" where
  "isLowerAZ c = (CHR ''a'' \<le> c \<and> c \<le> CHR ''z'')"

definition isDigit :: "char \<Rightarrow> bool" where
  "isDigit c = (CHR ''0'' \<le> c \<and> c \<le> CHR ''9'')"

definition isWordChar :: "char \<Rightarrow> bool" where
  \<comment> \<open>the characters of a word: letters, digits and the underscore\<close>
  "isWordChar c = (isUpperAZ c \<or> isLowerAZ c \<or> isDigit c \<or> c = CHR ''_'')"

definition isSpace :: "char \<Rightarrow> bool" where
  \<comment> \<open>white space: space, tab, newline, vertical tab, form feed, carriage return\<close>
  "isSpace c = (c = CHR '' '' \<or> c = CHR 0x09 \<or> c = CHR 0x0A \<or> c = CHR 0x0B \<or>
     c = CHR 0x0C \<or> c = CHR 0x0D)"

definition isASCII :: "char \<Rightarrow> bool" where
  \<comment> \<open>below \<^verbatim>\<open>utf8.RuneSelf\<close>\<close>
  "isASCII c = (c < CHR 0x80)"

definition lowerASCII :: "char \<Rightarrow> char" where
  \<comment> \<open>\<^verbatim>\<open>c += 'a' - 'A'\<close> on an upper-case letter\<close>
  "lowerASCII c = (if isUpperAZ c then char_of (of_char c + (32::nat)) else c)"

definition ToLower :: "(string \<Rightarrow> string) \<Rightarrow> string \<Rightarrow> string" where
  \<comment> \<open>\<^verbatim>\<open>strings.ToLower\<close>: bytewise on a string that is all ASCII; on any other string it is
      \<^verbatim>\<open>strings.Map(unicode.ToLower, s)\<close>, which consults the Unicode tables of the Go
      library and is taken here as the parameter \<open>mapLower\<close>\<close>
  "ToLower mapLower s = (if list_all isASCII s then map lowerASCII s else mapLower s)"

subsection \<open>The two regular expressions\<close>

fun keywordRE_FindString :: "string \<Rightarrow> string" where
  \<comment> \<open>\<^verbatim>\<open>regexp.MustCompile(`^.*_keyword:`).FindString\<close>: the match is anchored at the
      start of the text, \<^verbatim>\<open>.*\<close> is greedy, and the result is the empty string when nothing
      matches\<close>
  "keywordRE_FindString [] = []"
| "keywordRE_FindString (c # cs) =
     (if dot c then
        (case keywordRE_FindString cs of
           [] \<Rightarrow> (if prefix ''_keyword:'' (c # cs) then ''_keyword:'' else [])
         | m # ms \<Rightarrow> c # m # ms)
      else [])"

fun pipeRE_FindString :: "string \<Rightarrow> string" where
  \<comment> \<open>\<^verbatim>\<open>regexp.MustCompile(`[A-Z].*`).FindString\<close>: the leftmost match, greedy\<close>
  "pipeRE_FindString [] = []"
| "pipeRE_FindString (c # cs) =
     (if isUpperAZ c then c # takeWhile dot cs else pipeRE_FindString cs)"

subsection \<open>The category table\<close>

definition categories_table :: "(string \<times> string) list" where
  "categories_table =
     [(''col_name_keyword:'', ''C''),
      (''unreserved_keyword:'', ''U''),
      (''type_func_name_keyword:'', ''T''),
      (''cockroachdb_extra_type_func_name_keyword:'', ''T''),
      (''reserved_keyword:'', ''R''),
      (''cockroachdb_extra_reserved_keyword:'', ''R'')]"

definition categories :: "string \<Rightarrow> string" where
  \<comment> \<open>indexing a Go map: the zero value, the empty string, for a missing key\<close>
  "categories k = (case map_of categories_table k of None \<Rightarrow> [] | Some v \<Rightarrow> v)"

subsection \<open>Reading standard input: \<^verbatim>\<open>bufio.Scanner\<close> with \<^verbatim>\<open>ScanLines\<close>\<close>

datatype read_error =
    ErrTooLong \<comment> \<open>\<^verbatim>\<open>bufio.ErrTooLong\<close>: a line does not fit the scanner's buffer\<close>
  | ErrRead    \<comment> \<open>the error of a failed \<^verbatim>\<open>Read\<close> on standard input\<close>

definition MaxScanTokenSize :: nat where
  "MaxScanTokenSize = 64 * 1024"

definition dropCR :: "string \<Rightarrow> string" where
  "dropCR data = (if data \<noteq> [] \<and> last data = carriage_return then butlast data else data)"

function ScanLines :: "bool \<Rightarrow> string \<Rightarrow> string list \<times> read_error option" where
  \<comment> \<open>Every token that \<^verbatim>\<open>scanner.Scan()\<close> delivers before it returns false, and the value
      of \<^verbatim>\<open>scanner.Err()\<close> then. \<open>buf\<close> is what standard input still holds; \<open>failing\<close>
      says that the stream ends in a read error instead of the end of file.\<close>
  "ScanLines failing buf =
     (let line = takeWhile dot buf; rest = dropWhile dot buf in
      if MaxScanTokenSize \<le> length line then ([], Some ErrTooLong)
      else if rest = [] then
        (if line = [] then [] else [dropCR line], if failing then Some ErrRead else None)
      else
        (case ScanLines failing (tl rest) of (ls, e) \<Rightarrow> (dropCR line # ls, e)))"
  by pat_completeness auto
termination
proof (relation "measure (\<lambda>(failing, buf). length buf)")
  show "wf (measure (\<lambda>(failing, buf). length buf))"
    by simp
next
  fix failing :: bool and buf x xa :: string
  assume "xa = dropWhile dot buf" and "xa \<noteq> []"
  then have "length (tl xa) < length xa" and "length xa \<le> length buf"
    by (simp_all add: length_dropWhile_le)
  then show "((failing, tl xa), failing, buf) \<in> measure (\<lambda>(failing, buf). length buf)"
    by simp
qed

declare ScanLines.simps [simp del]

definition unlines :: "string list \<Rightarrow> string" where
  \<comment> \<open>the text of a file from its lines, each ended by a newline; used to write inputs\<close>
  "unlines ls = concat (map (\<lambda>l. l @ [newline]) ls)"

subsection \<open>The scanning loop of \<^verbatim>\<open>main\<close>\<close>

record entry =
  Lower :: string
  Match :: string
  Category :: string

record state =
  keyword :: bool
  category :: string
  seen :: "string \<Rightarrow> bool"
  data :: "entry list"

datatype fatal =
    UnknownKeywordType string  \<comment> \<open>\<^verbatim>\<open>log.Fatal("unknown keyword type:", match)\<close>\<close>
  | ReadingStandardInput read_error \<comment> \<open>\<^verbatim>\<open>log.Fatal("reading standard input:", err)\<close>\<close>
  | ExecuteFailed \<comment> \<open>\<^verbatim>\<open>log.Fatal(err)\<close> on the error of the template's \<^verbatim>\<open>Execute\<close>\<close>

definition init :: state where
  "init = \<lparr>keyword = False, category = [], seen = (\<lambda>_. False), data = []\<rparr>"

definition scan_line :: "(string \<Rightarrow> string) \<Rightarrow> state \<Rightarrow> string \<Rightarrow> fatal + state" where
  \<comment> \<open>one iteration of the loop \<^verbatim>\<open>for scanner.Scan()\<close>, on \<^verbatim>\<open>line := scanner.Text()\<close>\<close>
  "scan_line mapLower st line =
     (let match = keywordRE_FindString line in
      if match \<noteq> [] then
        (if categories match = [] then Inl (UnknownKeywordType match)
         else Inr (st\<lparr>keyword := True, category := categories match\<rparr>))
      else if line = [] then Inr (st\<lparr>keyword := False\<rparr>)
      else
        (let match = pipeRE_FindString line in
         if keyword st \<and> match \<noteq> [] \<and> \<not> seen st match then
           Inr (st\<lparr>seen := (seen st)(match := True),
                   data := data st @
                     [\<lparr>Lower = ToLower mapLower match, Match = match, Category = category st\<rparr>]\<rparr>)
         else Inr st))"

fun scan_lines :: "(string \<Rightarrow> string) \<Rightarrow> state \<Rightarrow> string list \<Rightarrow> fatal + state" where
  "scan_lines mapLower st [] = Inr st"
| "scan_lines mapLower st (line # lines) =
     (case scan_line mapLower st line of
        Inl f \<Rightarrow> Inl f
      | Inr st' \<Rightarrow> scan_lines mapLower st' lines)"

subsection \<open>Standard input, standard output and the run\<close>

record env =
  stdin :: string           \<comment> \<open>the bytes that standard input delivers\<close>
  stdin_fails :: bool       \<comment> \<open>whether it then reports a read error instead of the end of file\<close>
  stdout_room :: "nat option" \<comment> \<open>how many bytes standard output accepts before a write fails;
                                \<open>None\<close> when no write fails\<close>

record result =
  stdout :: string          \<comment> \<open>the bytes written to standard output\<close>
  exit :: "fatal option"    \<comment> \<open>\<open>None\<close> when \<^verbatim>\<open>main\<close> returns, the \<^verbatim>\<open>log.Fatal\<close> taken otherwise\<close>

definition scanning :: "(string \<Rightarrow> string) \<Rightarrow> env \<Rightarrow> fatal + state" where
  \<comment> \<open>the loop and the check of \<^verbatim>\<open>scanner.Err()\<close> after it\<close>
  "scanning mapLower e =
     (case ScanLines (stdin_fails e) (stdin e) of
        (lines, err) \<Rightarrow>
          (case scan_lines mapLower init lines of
             Inl f \<Rightarrow> Inl f
           | Inr st \<Rightarrow>
               (case err of
                  Some r \<Rightarrow> Inl (ReadingStandardInput r)
                | None \<Rightarrow> Inr st)))"

definition sort_Slice :: "entry list \<Rightarrow> entry list" where
  \<comment> \<open>\<^verbatim>\<open>sort.Slice(data, func(i, j int) bool { return data[i].Match < data[j].Match })\<close>\<close>
  "sort_Slice = sort_key Match"

definition sort_Slice_contract :: "entry list \<Rightarrow> entry list \<Rightarrow> bool" where
  \<comment> \<open>what \<^verbatim>\<open>sort.Slice\<close> promises of the slice after the call, whatever its algorithm: the
      same elements, no element before one that is less; it does not promise stability\<close>
  "sort_Slice_contract before after =
     (mset after = mset before \<and> sorted (map Match after))"

definition tab :: char where
  "tab = CHR 0x09"

definition tmpl_head :: string where
  \<open>tmpl_head =
     ''// Code generated by cmd/all-keywords. DO NOT EDIT.'' @ [newline] @
     ''// GENERATED FILE DO NOT EDIT'' @ [newline] @
     [newline] @
     ''package lex'' @ [newline] @
     [newline] @
     ''var Keywords = map[string]struct {'' @ [newline] @
     [tab] @ ''Tok int'' @ [newline] @
     [tab] @ ''Cat string'' @ [newline] @
     ''}{'' @ [newline]\<close>

definition tmpl_map_entry :: "entry \<Rightarrow> string" where
  \<open>tmpl_map_entry e =
     ''"'' @ Lower e @ ''": { '' @ Match e @ '', "'' @ Category e @ ''" },'' @ [newline]\<close>

definition tmpl_middle :: string where
  \<open>tmpl_middle =
     ''}'' @ [newline] @
     [newline] @
     ''// GetKeywordID returns the lex id of the SQL keyword k or IDENT if k is'' @ [newline] @
     ''// not a keyword.'' @ [newline] @
     ''func GetKeywordID(k string) int32 {'' @ [newline] @
     [tab] @ ''// The previous implementation generated a map that did a string ->'' @ [newline] @
     [tab] @ ''// id lookup. Various ideas were benchmarked and the implementation below'' @ [newline] @
     [tab] @ ''// was the fastest of those, between 3% and 10% faster (at parsing, so the'' @ [newline] @
     [tab] @ ''// scanning speedup is even more) than the map implementation.'' @ [newline] @
     [tab] @ ''switch k {'' @ [newline] @
     [tab]\<close>

definition tmpl_case :: "entry \<Rightarrow> string" where
  \<open>tmpl_case e =
     ''case "'' @ Lower e @ ''": return '' @ Match e @ [newline] @ [tab]\<close>

definition tmpl_tail :: string where
  \<open>tmpl_tail =
     ''default: return IDENT'' @ [newline] @
     [tab] @ ''}'' @ [newline] @
     ''}'' @ [newline]\<close>

definition tmpl :: "entry list \<Rightarrow> string" where
  \<comment> \<open>the text that executing the template \<^verbatim>\<open>tmpl\<close> on \<open>es\<close> writes: \<^verbatim>\<open>{{range . -}}\<close> and
      \<^verbatim>\<open>{{end -}}\<close> trim the white space that follows them, and \<^verbatim>\<open>text/template\<close> escapes
      nothing\<close>
  "tmpl es =
     tmpl_head @ concat (map tmpl_map_entry es) @ tmpl_middle @
     concat (map tmpl_case es) @ tmpl_tail"

definition Execute :: "nat option \<Rightarrow> entry list \<Rightarrow> result" where
  \<comment> \<open>\<^verbatim>\<open>template.Must(...).Execute(os.Stdout, data)\<close> and the \<^verbatim>\<open>log.Fatal\<close> on its error:
      the writes reach standard output until one fails\<close>
  "Execute room es =
     (case room of
        None \<Rightarrow> \<lparr>stdout = tmpl es, exit = None\<rparr>
      | Some n \<Rightarrow>
          (if length (tmpl es) \<le> n then \<lparr>stdout = tmpl es, exit = None\<rparr>
           else \<lparr>stdout = take n (tmpl es), exit = Some ExecuteFailed\<rparr>))"

definition sorted_data :: "(string \<Rightarrow> string) \<Rightarrow> env \<Rightarrow> fatal + entry list" where
  \<comment> \<open>\<^verbatim>\<open>data\<close> as it is handed to \<^verbatim>\<open>Execute\<close>\<close>
  "sorted_data mapLower e =
     (case scanning mapLower e of
        Inl f \<Rightarrow> Inl f
      | Inr st \<Rightarrow> Inr (sort_Slice (data st)))"

definition main :: "(string \<Rightarrow> string) \<Rightarrow> env \<Rightarrow> result" where
  "main mapLower e =
     (case sorted_data mapLower e of
        Inl f \<Rightarrow> \<lparr>stdout = [], exit = Some f\<rparr>
      | Inr es \<Rightarrow> Execute (stdout_room e) es)"

definition run :: "(string \<Rightarrow> string) \<Rightarrow> env \<Rightarrow> result \<Rightarrow> bool" where
  \<comment> \<open>\<^verbatim>\<open>main\<close> again, with \<^verbatim>\<open>sort.Slice\<close> free to return any slice its contract allows:
      \<open>run mapLower e r\<close> says that \<open>r\<close> is a possible result of a run in \<open>e\<close>\<close>
  "run mapLower e r =
     (case scanning mapLower e of
        Inl f \<Rightarrow> r = \<lparr>stdout = [], exit = Some f\<rparr>
      | Inr st \<Rightarrow>
          (\<exists>after. sort_Slice_contract (data st) after \<and> r = Execute (stdout_room e) after))"

subsection \<open>The generated function, read from the generated text\<close>

text \<open>
  What the program writes is Go source. The function \<^verbatim>\<open>GetKeywordID\<close> in it is one
  \<^verbatim>\<open>switch k\<close> whose clauses are \<^verbatim>\<open>case "...": return X\<close> and \<^verbatim>\<open>default: return X\<close>, one on a
  line. The definitions below read these clauses out of a text and run the \<^verbatim>\<open>switch\<close> as
  Go does: the clauses are tried from the top, the first \<^verbatim>\<open>case\<close> whose string equals \<^verbatim>\<open>k\<close>
  returns, and the \<^verbatim>\<open>default\<close> returns when none does. The value is the identifier that the
  \<^verbatim>\<open>return\<close> names. The value is \<open>None\<close> for a text that is outside this fragment or that Go
  does not compile: a line between \<^verbatim>\<open>switch k {\<close> and the closing brace that is not such a
  clause, a string with a quote or a backslash in it, a returned expression that is not an
  identifier, a \<^verbatim>\<open>case\<close> string used twice, no \<^verbatim>\<open>default\<close> or more than one.
\<close>

fun split_lines :: "string \<Rightarrow> string list" where
  \<comment> \<open>the lines of a text; a newline ends a line\<close>
  "split_lines [] = []"
| "split_lines (c # cs) =
     (if c = newline then [] # split_lines cs
      else (case split_lines cs of [] \<Rightarrow> [[c]] | l # ls \<Rightarrow> (c # l) # ls))"

datatype clause = Case string string | Default string

definition isIdentifier :: "string \<Rightarrow> bool" where
  "isIdentifier s = (case s of [] \<Rightarrow> False | c # cs \<Rightarrow> \<not> isDigit c \<and> list_all isWordChar s)"

definition parse_clause :: "string \<Rightarrow> clause option" where
  \<open>parse_clause line =
     (let l = dropWhile isSpace line in
      if prefix ''case "'' l then
        (let lit = takeWhile (\<lambda>c. c \<noteq> CHR 0x22) (drop 6 l);
             rest = dropWhile (\<lambda>c. c \<noteq> CHR 0x22) (drop 6 l)
         in
           if prefix ''": return '' rest \<and> list_all (\<lambda>c. c \<noteq> CHR 0x5C) lit \<and>
              isIdentifier (drop 10 rest)
           then Some (Case lit (drop 10 rest)) else None)
      else if prefix ''default: return '' l \<and> isIdentifier (drop 16 l)
        then Some (Default (drop 16 l))
      else None)\<close>

definition switch_body :: "string \<Rightarrow> string list" where
  \<comment> \<open>the lines after the line \<^verbatim>\<open>switch k {\<close> and before the next line that is a closing brace\<close>
  "switch_body text =
     takeWhile (\<lambda>l. l \<noteq> tab # ''}'')
       (drop 1 (dropWhile (\<lambda>l. l \<noteq> tab # ''switch k {'') (split_lines text)))"

fun case_labels :: "clause list \<Rightarrow> string list" where
  "case_labels [] = []"
| "case_labels (Case lit ident # cs) = lit # case_labels cs"
| "case_labels (Default ident # cs) = case_labels cs"

fun defaults :: "clause list \<Rightarrow> string list" where
  "defaults [] = []"
| "defaults (Case lit ident # cs) = defaults cs"
| "defaults (Default ident # cs) = ident # defaults cs"

fun first_case :: "clause list \<Rightarrow> string \<Rightarrow> string option" where
  "first_case [] k = None"
| "first_case (Case lit ident # cs) k = (if k = lit then Some ident else first_case cs k)"
| "first_case (Default ident # cs) k = first_case cs k"

definition GetKeywordID :: "string \<Rightarrow> string \<Rightarrow> string option" where
  \<comment> \<open>the identifier that \<^verbatim>\<open>GetKeywordID(k)\<close> of the generated \<open>text\<close> returns\<close>
  "GetKeywordID text k =
     (case those (map parse_clause (switch_body text)) of
        None \<Rightarrow> None
      | Some cs \<Rightarrow>
          if distinct (case_labels cs) then
            (case first_case cs k of
               Some ident \<Rightarrow> Some ident
             | None \<Rightarrow> (case defaults cs of [d] \<Rightarrow> Some d | _ \<Rightarrow> None))
          else None)"

subsection \<open>The specification's description of the token of a line\<close>

definition first_upper_word :: "string \<Rightarrow> string" where
  \<comment> \<open>Follows the specification's words, not the code: ``the first uppercase-led word-like
      substring'' of a line, that is the word that begins at the first upper-case letter.\<close>
  "first_upper_word line = takeWhile isWordChar (dropWhile (\<lambda>c. \<not> isUpperAZ c) line)"

subsection \<open>The invariant of the scanning loop\<close>

definition scan_inv :: "(string \<Rightarrow> string) \<Rightarrow> state \<Rightarrow> bool" where
  \<comment> \<open>\<^verbatim>\<open>seen\<close> holds exactly the recorded tokens, no token is recorded twice, and every
      entry has the lower-case form of its token\<close>
  "scan_inv f st = (seen st = (\<lambda>m. m \<in> Match ` set (data st)) \<and>
     distinct (map Match (data st)) \<and>
     list_all (\<lambda>e. Lower e = ToLower f (Match e)) (data st))"

section \<open>Auxiliary facts\<close>

subsection \<open>Characters\<close>

lemma isUpperAZ_nat: "isUpperAZ c \<longleftrightarrow> 65 \<le> (of_char c :: nat) \<and> (of_char c :: nat) \<le> 90"
  by (simp add: isUpperAZ_def less_eq_char_def)

lemma isLowerAZ_nat: "isLowerAZ c \<longleftrightarrow> 97 \<le> (of_char c :: nat) \<and> (of_char c :: nat) \<le> 122"
  by (simp add: isLowerAZ_def less_eq_char_def)

lemma isASCII_nat: "isASCII c \<longleftrightarrow> (of_char c :: nat) < 128"
  by (simp add: isASCII_def less_char_def)

lemma isUpperAZ_dot: "isUpperAZ c \<Longrightarrow> dot c"
  by (auto simp add: isUpperAZ_nat dot_def newline_def)

lemma of_char_lowerASCII:
  "isUpperAZ c \<Longrightarrow> (of_char (lowerASCII c) :: nat) = of_char c + 32"
  by (simp add: lowerASCII_def isUpperAZ_nat)

lemma lowerASCII_upper_lower: "isUpperAZ c \<Longrightarrow> isLowerAZ (lowerASCII c)"
  by (simp add: isLowerAZ_nat of_char_lowerASCII) (simp add: isUpperAZ_nat)

lemma lowerASCII_inj:
  assumes "\<not> isLowerAZ c" and "\<not> isLowerAZ d" and "lowerASCII c = lowerASCII d"
  shows "c = d"
proof (cases "isUpperAZ c")
  case True
  note c = this
  show ?thesis
  proof (cases "isUpperAZ d")
    case True
    have "(of_char (lowerASCII c) :: nat) = of_char (lowerASCII d)"
      using assms(3) by simp
    then have "(of_char c :: nat) = of_char d"
      using c True by (simp add: of_char_lowerASCII)
    then show ?thesis by simp
  next
    case False
    then have "lowerASCII d = d" by (simp add: lowerASCII_def)
    then show ?thesis
      using lowerASCII_upper_lower [OF c] assms by simp
  qed
next
  case False
  then have c: "lowerASCII c = c" by (simp add: lowerASCII_def)
  show ?thesis
  proof (cases "isUpperAZ d")
    case True
    then show ?thesis
      using lowerASCII_upper_lower [OF True] assms c by simp
  next
    case False
    then have "lowerASCII d = d" by (simp add: lowerASCII_def)
    then show ?thesis using c assms(3) by simp
  qed
qed

lemma map_lowerASCII_inj:
  "list_all (\<lambda>c. \<not> isLowerAZ c) xs \<Longrightarrow> list_all (\<lambda>c. \<not> isLowerAZ c) ys \<Longrightarrow>
   map lowerASCII xs = map lowerASCII ys \<Longrightarrow> xs = ys"
proof (induction xs arbitrary: ys)
  case Nil
  then show ?case by simp
next
  case (Cons x xs)
  then obtain y ys' where ys: "ys = y # ys'" by (cases ys) auto
  with Cons.prems have "x = y" and "map lowerASCII xs = map lowerASCII ys'"
    by (auto intro: lowerASCII_inj)
  with Cons.IH [of ys'] Cons.prems ys show ?case by simp
qed

subsection \<open>The regular expressions, characterised\<close>

lemma pipeRE_FindString_eq:
  "pipeRE_FindString line = takeWhile dot (dropWhile (\<lambda>c. \<not> isUpperAZ c) line)"
  by (induction line) (simp_all add: isUpperAZ_dot)

lemma pipeRE_FindString_line:
  "list_all dot line \<Longrightarrow> pipeRE_FindString line = dropWhile (\<lambda>c. \<not> isUpperAZ c) line"
proof -
  assume "list_all dot line"
  then have "list_all dot (dropWhile (\<lambda>c. \<not> isUpperAZ c) line)"
    by (auto simp add: list_all_iff dest: set_dropWhileD)
  then show ?thesis
    by (simp add: pipeRE_FindString_eq list_all_iff)
qed

lemma pipeRE_FindString_Nil_iff:
  "pipeRE_FindString line = [] \<longleftrightarrow> \<not> list_ex isUpperAZ line"
  by (induction line) simp_all

lemma keywordRE_prefix: "prefix (keywordRE_FindString line) line"
  by (induction line) (auto split: list.splits)

lemma keywordRE_suffix:
  "keywordRE_FindString line \<noteq> [] \<Longrightarrow> suffix ''_keyword:'' (keywordRE_FindString line)"
proof (induction line)
  case Nil
  then show ?case by simp
next
  case (Cons c cs)
  show ?case
  proof (cases "keywordRE_FindString cs")
    case Nil
    with Cons.prems show ?thesis by (simp split: if_splits)
  next
    case (Cons m ms)
    with Cons.IH have "suffix ''_keyword:'' (m # ms)" by simp
    then have "suffix ''_keyword:'' (c # m # ms)" by (rule suffix_ConsI)
    with Cons Cons.prems show ?thesis by (simp split: if_splits)
  qed
qed

lemma keywordRE_longest:
  "list_all dot line \<Longrightarrow> prefix m line \<Longrightarrow> suffix ''_keyword:'' m \<Longrightarrow>
   length m \<le> length (keywordRE_FindString line)"
proof (induction line arbitrary: m)
  case Nil
  then show ?case by simp
next
  case (Cons c cs)
  from Cons.prems(3) have "m \<noteq> []" by auto
  with Cons.prems(2) obtain m' where m: "m = c # m'" and m': "prefix m' cs"
    by (cases m) auto
  from Cons.prems(1) have c: "dot c" and cs: "list_all dot cs" by simp_all
  show ?case
  proof (cases "suffix ''_keyword:'' m'")
    case True
    with Cons.IH [OF cs m'] have le: "length m' \<le> length (keywordRE_FindString cs)" .
    from True have "m' \<noteq> []" by auto
    with le have "keywordRE_FindString cs \<noteq> []" by auto
    then show ?thesis using le c m by (auto split: list.splits)
  next
    case False
    with Cons.prems(3) m have eq: "''_keyword:'' = c # m'"
      by (simp add: suffix_Cons)
    then have p: "prefix ''_keyword:'' (c # cs)" using m' by simp
    show ?thesis
    proof (cases "keywordRE_FindString cs")
      case Nil
      with p c have "keywordRE_FindString (c # cs) = ''_keyword:''" by simp
      then show ?thesis using m eq by simp
    next
      case (Cons k ks)
      then have "suffix ''_keyword:'' (keywordRE_FindString cs)"
        using keywordRE_suffix [of cs] by simp
      then have "length ''_keyword:'' \<le> length (keywordRE_FindString cs)"
        by (rule suffix_length_le)
      moreover have "keywordRE_FindString (c # cs) = c # keywordRE_FindString cs"
        using Cons c by simp
      moreover have "length m = length ''_keyword:''" using m eq by simp
      ultimately show ?thesis by simp
    qed
  qed
qed

lemma keywordRE_matches_iff:
  assumes "list_all dot line"
  shows "keywordRE_FindString line \<noteq> [] \<longleftrightarrow> (\<exists>pre post. line = pre @ ''_keyword:'' @ post)"
proof
  assume ne: "keywordRE_FindString line \<noteq> []"
  from keywordRE_suffix [OF ne] obtain pre where "keywordRE_FindString line = pre @ ''_keyword:''"
    by (auto simp add: suffix_def)
  moreover from keywordRE_prefix [of line] obtain post
    where "line = keywordRE_FindString line @ post"
    by (auto simp add: prefix_def)
  ultimately have "line = pre @ ''_keyword:'' @ post" by simp
  then show "\<exists>pre post. line = pre @ ''_keyword:'' @ post" by blast
next
  assume "\<exists>pre post. line = pre @ ''_keyword:'' @ post"
  then obtain pre post where l: "line = pre @ ''_keyword:'' @ post" by blast
  have "prefix (pre @ ''_keyword:'') line" unfolding l by (simp add: prefix_def)
  moreover have "suffix ''_keyword:'' (pre @ ''_keyword:'')" by (simp add: suffix_def)
  ultimately have "length (pre @ ''_keyword:'') \<le> length (keywordRE_FindString line)"
    using assms by (rule keywordRE_longest [rotated])
  then show "keywordRE_FindString line \<noteq> []" by auto
qed

subsection \<open>The scanner on a text given by its lines\<close>

lemma ScanLines_Nil: "ScanLines failing [] = ([], if failing then Some ErrRead else None)"
  by (simp add: ScanLines.simps MaxScanTokenSize_def)

lemma ScanLines_line:
  assumes "list_all dot l" and "length l < MaxScanTokenSize"
  shows "ScanLines failing (l @ newline # rest) =
     (case ScanLines failing rest of (ls, e) \<Rightarrow> (dropCR l # ls, e))"
proof -
  have t: "takeWhile dot (l @ newline # rest) = l"
    using assms(1) by (simp add: list_all_iff dot_def)
  have d: "dropWhile dot (l @ newline # rest) = newline # rest"
    using assms(1) by (simp add: list_all_iff dot_def)
  show ?thesis
    using assms(2) by (subst ScanLines.simps) (simp add: t d Let_def)
qed

lemma ScanLines_unlines:
  "list_all (\<lambda>l. list_all dot l \<and> length l < MaxScanTokenSize) ls \<Longrightarrow>
   ScanLines failing (unlines ls) = (map dropCR ls, if failing then Some ErrRead else None)"
proof (induction ls)
  case Nil
  then show ?case by (simp add: unlines_def ScanLines_Nil)
next
  case (Cons l ls)
  then have "ScanLines failing (unlines ls) = (map dropCR ls, if failing then Some ErrRead else None)"
    by simp
  moreover have "unlines (l # ls) = l @ newline # unlines ls"
    by (simp add: unlines_def)
  ultimately show ?case
    using Cons.prems by (simp add: ScanLines_line)
qed

lemma ScanLines_last_line:
  assumes "list_all (\<lambda>l. list_all dot l \<and> length l < MaxScanTokenSize) ls"
    and "l \<noteq> []" and "list_all dot l" and "length l < MaxScanTokenSize"
  shows "ScanLines failing (unlines ls @ l) =
    (map dropCR ls @ [dropCR l], if failing then Some ErrRead else None)"
  using assms(1)
proof (induction ls)
  case Nil
  have t: "takeWhile dot l = l" and d: "dropWhile dot l = []"
    using assms(3) by (simp_all add: list_all_iff)
  from assms(2,4) show ?case
    by (subst ScanLines.simps) (simp add: unlines_def Let_def t d)
next
  case (Cons k ks)
  then have "ScanLines failing (unlines ks @ l) =
      (map dropCR ks @ [dropCR l], if failing then Some ErrRead else None)"
    by simp
  moreover have "unlines (k # ks) @ l = k @ newline # (unlines ks @ l)"
    by (simp add: unlines_def)
  ultimately show ?case
    using Cons.prems by (simp add: ScanLines_line)
qed

text \<open>No line that the scanner delivers holds a newline.\<close>

lemma dropCR_dot: "list_all dot l \<Longrightarrow> list_all dot (dropCR l)"
  by (auto simp add: dropCR_def list_all_iff dest: in_set_butlastD)

lemma ScanLines_dot: "list_all (list_all dot) (fst (ScanLines failing buf))"
proof (induction failing buf rule: ScanLines.induct)
  case (1 failing buf)
  have t: "list_all dot (dropCR (takeWhile dot buf))"
    by (rule dropCR_dot) (auto simp add: list_all_iff dest: set_takeWhileD)
  show ?case
  proof (cases "MaxScanTokenSize \<le> length (takeWhile dot buf)")
    case True
    then show ?thesis by (subst ScanLines.simps) (simp add: Let_def)
  next
    case False
    note short = this
    show ?thesis
    proof (cases "dropWhile dot buf = []")
      case True
      with short t show ?thesis by (subst ScanLines.simps) (simp add: Let_def)
    next
      case False
      with short "1.IH" [OF refl refl _ False]
      have "list_all (list_all dot) (fst (ScanLines failing (tl (dropWhile dot buf))))"
        by simp
      with short False t show ?thesis
        by (subst ScanLines.simps) (auto simp add: Let_def split: prod.splits)
    qed
  qed
qed

subsection \<open>The loop keeps its invariant\<close>

lemma scan_lines_append:
  "scan_lines f st (xs @ ys) =
     (case scan_lines f st xs of Inl e \<Rightarrow> Inl e | Inr st' \<Rightarrow> scan_lines f st' ys)"
  by (induction xs arbitrary: st) (simp_all split: sum.splits)

lemma scan_line_cases:
  assumes "scan_line f st line = Inr st'"
  obtains
    (header) "keywordRE_FindString line \<noteq> []" "categories (keywordRE_FindString line) \<noteq> []"
      "st' = st\<lparr>keyword := True, category := categories (keywordRE_FindString line)\<rparr>"
  | (blank) "line = []" "st' = st\<lparr>keyword := False\<rparr>"
  | (recorded) "keywordRE_FindString line = []" "line \<noteq> []" "keyword st"
      "pipeRE_FindString line \<noteq> []" "\<not> seen st (pipeRE_FindString line)"
      "st' = st\<lparr>seen := (seen st)(pipeRE_FindString line := True),
                data := data st @ [\<lparr>Lower = ToLower f (pipeRE_FindString line),
                  Match = pipeRE_FindString line, Category = category st\<rparr>]\<rparr>"
  | (skip) "keywordRE_FindString line = []" "line \<noteq> []" "st' = st"
proof (cases "keywordRE_FindString line \<noteq> []")
  case True
  with assms have "categories (keywordRE_FindString line) \<noteq> []"
    and "st' = st\<lparr>keyword := True, category := categories (keywordRE_FindString line)\<rparr>"
    by (simp_all add: scan_line_def Let_def split: if_splits)
  with True show ?thesis by (rule header)
next
  case False
  then have k: "keywordRE_FindString line = []" by simp
  show ?thesis
  proof (cases "line = []")
    case True
    with assms have "st' = st\<lparr>keyword := False\<rparr>" by (simp add: scan_line_def Let_def)
    with True show ?thesis by (rule blank)
  next
    case False
    note ne = this
    show ?thesis
    proof (cases "keyword st \<and> pipeRE_FindString line \<noteq> [] \<and> \<not> seen st (pipeRE_FindString line)")
      case True
      with assms k ne have "st' = st\<lparr>seen := (seen st)(pipeRE_FindString line := True),
                data := data st @ [\<lparr>Lower = ToLower f (pipeRE_FindString line),
                  Match = pipeRE_FindString line, Category = category st\<rparr>]\<rparr>"
        by (simp add: scan_line_def Let_def)
      with k ne True show ?thesis by (intro recorded) simp_all
    next
      case False
      with assms k ne have "st' = st" by (simp add: scan_line_def Let_def)
      with k ne show ?thesis by (rule skip)
    qed
  qed
qed

lemma scan_inv_init: "scan_inv f init"
  by (simp add: scan_inv_def init_def)

lemma scan_line_inv:
  assumes "scan_line f st line = Inr st'" and "scan_inv f st"
  shows "scan_inv f st'"
  using assms(1)
proof (cases rule: scan_line_cases)
  case recorded
  from assms(2) have s: "seen st = (\<lambda>m. m \<in> Match ` set (data st))"
    and d: "distinct (map Match (data st))"
    and l: "list_all (\<lambda>e. Lower e = ToLower f (Match e)) (data st)"
    by (simp_all add: scan_inv_def)
  from recorded(5) s have new: "pipeRE_FindString line \<notin> Match ` set (data st)"
    by simp
  have "seen st' = (\<lambda>m. m \<in> Match ` set (data st'))"
    unfolding recorded(6) using s by (auto simp add: fun_eq_iff)
  moreover have "distinct (map Match (data st'))"
    unfolding recorded(6) using d new by simp
  moreover have "list_all (\<lambda>e. Lower e = ToLower f (Match e)) (data st')"
    unfolding recorded(6) using l by simp
  ultimately show ?thesis by (simp add: scan_inv_def)
next
  case header
  with assms(2) show ?thesis by (simp add: scan_inv_def)
next
  case blank
  with assms(2) show ?thesis by (simp add: scan_inv_def)
next
  case skip
  with assms(2) show ?thesis by simp
qed

lemma scan_lines_inv:
  "scan_lines f st lines = Inr st' \<Longrightarrow> scan_inv f st \<Longrightarrow> scan_inv f st'"
proof (induction lines arbitrary: st)
  case Nil
  then show ?case by simp
next
  case (Cons l ls)
  then obtain st1 where 1: "scan_line f st l = Inr st1" and 2: "scan_lines f st1 ls = Inr st'"
    by (auto split: sum.splits)
  from scan_line_inv [OF 1 Cons.prems(2)] Cons.IH [OF 2] show ?case by simp
qed

lemma scan_line_data_prefix:
  "scan_line f st line = Inr st' \<Longrightarrow> prefix (data st) (data st')"
  by (erule scan_line_cases) simp_all

lemma scan_lines_data_prefix:
  "scan_lines f st lines = Inr st' \<Longrightarrow> prefix (data st) (data st')"
proof (induction lines arbitrary: st)
  case Nil
  then show ?case by simp
next
  case (Cons l ls)
  then obtain st1 where 1: "scan_line f st l = Inr st1" and 2: "scan_lines f st1 ls = Inr st'"
    by (auto split: sum.splits)
  from scan_line_data_prefix [OF 1] Cons.IH [OF 2] show ?case
    by (rule prefix_order.trans)
qed

subsection \<open>The sort has one possible result\<close>

lemma sort_Slice_meets_contract: "sort_Slice_contract d (sort_Slice d)"
  by (simp add: sort_Slice_contract_def sort_Slice_def)

lemma sort_Slice_contract_unique:
  assumes "distinct (map Match d)" and "sort_Slice_contract d a"
  shows "a = sort_Slice d"
proof -
  from assms(2) have m: "mset a = mset d" and s: "sorted (map Match a)"
    by (simp_all add: sort_Slice_contract_def)
  from m have "mset (map Match a) = mset (map Match d)" by simp
  from mset_eq_imp_distinct_iff [OF this] assms(1) have da: "distinct (map Match a)"
    by blast
  have "mset (map Match (sort_Slice d)) = mset (map Match d)"
    by (simp add: sort_Slice_def)
  from mset_eq_imp_distinct_iff [OF this] assms(1) have ds: "distinct (map Match (sort_Slice d))"
    by blast
  have ss: "sorted (map Match (sort_Slice d))" by (simp add: sort_Slice_def)
  have sa: "set a = set d" using m by (rule mset_eq_setD)
  then have "set (map Match a) = set (map Match (sort_Slice d))"
    by (simp add: sort_Slice_def)
  with s da ss ds have eq: "map Match a = map Match (sort_Slice d)"
    by (simp add: sorted_distinct_set_unique)
  have "inj_on Match (set d)" using assms(1) by (simp add: distinct_map)
  with sa have "inj_on Match (set a \<union> set (sort_Slice d))"
    by (simp add: sort_Slice_def)
  with eq show ?thesis by (simp add: inj_on_map_eq_map)
qed

subsection \<open>Runs on a text given by its lines\<close>

lemmas eval_simps =
  init_def scan_line_def dot_def newline_def carriage_return_def isUpperAZ_def
  categories_def categories_table_def ToLower_def isASCII_def lowerASCII_def Let_def
  char_of_def bit_Suc_0_iff MaxScanTokenSize_def dropCR_def

lemma scanning_unlines:
  assumes "list_all (\<lambda>l. list_all dot l \<and> length l < MaxScanTokenSize) ls"
  shows "scanning f \<lparr>stdin = unlines ls, stdin_fails = b, stdout_room = r\<rparr> =
     (case scan_lines f init (map dropCR ls) of
        Inl x \<Rightarrow> Inl x
      | Inr st \<Rightarrow> if b then Inl (ReadingStandardInput ErrRead) else Inr st)"
  by (simp add: scanning_def ScanLines_unlines [OF assms] split: sum.splits)

lemma scanning_last_line:
  assumes "list_all (\<lambda>l. list_all dot l \<and> length l < MaxScanTokenSize) ls"
    and "l \<noteq> []" and "list_all dot l" and "length l < MaxScanTokenSize"
  shows "scanning f \<lparr>stdin = unlines ls @ l, stdin_fails = False, stdout_room = r\<rparr> =
     scanning f \<lparr>stdin = unlines (ls @ [l]), stdin_fails = False, stdout_room = r\<rparr>"
proof -
  from assms have "list_all (\<lambda>l. list_all dot l \<and> length l < MaxScanTokenSize) (ls @ [l])"
    by simp
  from ScanLines_unlines [OF this, of False] ScanLines_last_line [OF assms, of False]
  show ?thesis by (simp add: scanning_def)
qed

lemma scanning_inv: "scanning f e = Inr st \<Longrightarrow> scan_inv f st"
  by (auto simp add: scanning_def split: prod.splits sum.splits option.splits
      intro: scan_lines_inv scan_inv_init)

lemma sorted_data_distinct:
  assumes "sorted_data f e = Inr es"
  shows "distinct (map Match es)"
proof -
  from assms obtain st where st: "scanning f e = Inr st" and es: "es = sort_Slice (data st)"
    by (auto simp add: sorted_data_def split: sum.splits)
  from scanning_inv [OF st] have d: "distinct (map Match (data st))"
    by (simp add: scan_inv_def)
  have "mset (map Match es) = mset (map Match (data st))"
    by (simp add: es sort_Slice_def)
  from mset_eq_imp_distinct_iff [OF this] d show ?thesis by blast
qed

lemma sorted_data_six_lines:
  "sorted_data f \<lparr>stdin = unlines [''reserved_keyword:'', ''SELECT'', ''WHERE'', [],
       ''unreserved_keyword:'', ''NAME''], stdin_fails = False, stdout_room = r\<rparr> =
   Inr [\<lparr>Lower = ''name'', Match = ''NAME'', Category = ''U''\<rparr>,
        \<lparr>Lower = ''select'', Match = ''SELECT'', Category = ''R''\<rparr>,
        \<lparr>Lower = ''where'', Match = ''WHERE'', Category = ''R''\<rparr>]"
proof -
  have "scanning f \<lparr>stdin = unlines [''reserved_keyword:'', ''SELECT'', ''WHERE'', [],
       ''unreserved_keyword:'', ''NAME''], stdin_fails = False, stdout_room = r\<rparr> =
     Inr \<lparr>keyword = True, category = ''U'',
       seen = (\<lambda>_. False)(''SELECT'' := True, ''WHERE'' := True, ''NAME'' := True),
       data = [\<lparr>Lower = ''select'', Match = ''SELECT'', Category = ''R''\<rparr>,
        \<lparr>Lower = ''where'', Match = ''WHERE'', Category = ''R''\<rparr>,
        \<lparr>Lower = ''name'', Match = ''NAME'', Category = ''U''\<rparr>]\<rparr>"
    by (subst scanning_unlines) (simp_all add: eval_simps)
  then show ?thesis
    by (simp add: sorted_data_def sort_Slice_def)
qed

subsection \<open>More on the header pattern and the table\<close>

lemma keywordRE_has_underscore:
  assumes "keywordRE_FindString line \<noteq> []"
  shows "CHR ''_'' \<in> set line"
proof -
  from keywordRE_suffix [OF assms] have "CHR ''_'' \<in> set (keywordRE_FindString line)"
    by (auto simp add: suffix_def)
  with set_mono_prefix [OF keywordRE_prefix [of line]] show ?thesis
    by blast
qed

lemma keywordRE_whole_line:
  assumes "list_all dot line" and "suffix ''_keyword:'' line"
  shows "keywordRE_FindString line = line"
proof -
  have "length line \<le> length (keywordRE_FindString line)"
    using assms(1) _ assms(2) by (rule keywordRE_longest) simp
  with keywordRE_prefix [of line] show ?thesis
    by (metis prefix_length_le le_antisym prefix_length_prefix prefix_order.eq_iff prefix_order.refl)
qed

lemma categories_known:
  "categories m \<noteq> [] \<longleftrightarrow> m \<in> set (map fst categories_table)"
  by (simp add: categories_def categories_table_def)

lemma scan_lines_fatal:
  assumes "scan_lines f st pre = Inr st1" and "scan_line f st1 line = Inl x"
  shows "scan_lines f st (pre @ line # post) = Inl x"
  by (simp add: scan_lines_append assms)

lemma main_scan_fatal:
  assumes "scan_lines f init (fst (ScanLines (stdin_fails e) (stdin e))) = Inl x"
  shows "main f e = \<lparr>stdout = [], exit = Some x\<rparr>"
  using assms by (auto simp add: main_def sorted_data_def scanning_def split: prod.splits)

subsection \<open>Lines that are neither a header nor empty\<close>

lemma isUpperAZ_letters: "isUpperAZ c \<longleftrightarrow> c \<in> set ''ABCDEFGHIJKLMNOPQRSTUVWXYZ''"
proof
  assume "isUpperAZ c"
  then have "(of_char c :: nat) \<in> {65..<91}"
    by (simp add: isUpperAZ_nat)
  then have "(of_char c :: nat) \<in> set [65..<91]"
    by (simp only: set_upt)
  then have "char_of (of_char c :: nat) \<in> char_of ` set [65..<91 :: nat]"
    by (rule imageI)
  then have "c \<in> set (map char_of [65..<91 :: nat])"
    by (simp only: char_of_char set_map)
  moreover have "map char_of [65..<91 :: nat] = ''ABCDEFGHIJKLMNOPQRSTUVWXYZ''"
    by (simp add: char_of_def bit_Suc_0_iff)
  ultimately show "c \<in> set ''ABCDEFGHIJKLMNOPQRSTUVWXYZ''"
    by (simp only:)
next
  assume "c \<in> set ''ABCDEFGHIJKLMNOPQRSTUVWXYZ''"
  then show "isUpperAZ c"
    by (auto simp add: isUpperAZ_def)
qed

lemma scan_line_no_token:
  assumes "line \<noteq> []" and "keywordRE_FindString line = []" and "\<not> list_ex isUpperAZ line"
  shows "scan_line f st line = Inr st"
  using assms by (simp add: scan_line_def Let_def pipeRE_FindString_Nil_iff)

lemma isSpace_not_upper: "isSpace c \<Longrightarrow> \<not> isUpperAZ c"
  by (auto simp add: isSpace_def isUpperAZ_def)

lemma scan_line_space:
  assumes "line \<noteq> []" and "list_all isSpace line"
  shows "scan_line f st line = Inr st"
proof -
  have "CHR ''_'' \<notin> set line"
    using assms(2) by (auto simp add: list_all_iff isSpace_def)
  then have "keywordRE_FindString line = []"
    using keywordRE_has_underscore [of line] by blast
  moreover have "\<not> list_ex isUpperAZ line"
    using assms(2) by (auto simp add: list_all_iff list_ex_iff dest: isSpace_not_upper)
  ultimately show ?thesis using assms(1) by (simp add: scan_line_no_token)
qed

lemma scan_line_keyword_after:
  assumes "keyword st" and "scan_line f st line = Inr st'"
  shows "keyword st' \<longleftrightarrow> line \<noteq> []"
  using assms(2)
proof (cases rule: scan_line_cases)
  case header
  then show ?thesis by auto
next
  case blank
  then show ?thesis by simp
next
  case recorded
  with assms(1) show ?thesis by simp
next
  case skip
  with assms(1) show ?thesis by simp
qed

subsection \<open>Whole runs\<close>

lemma filter_distinct_key:
  "distinct (map f xs) \<Longrightarrow> x \<in> set xs \<Longrightarrow> filter (\<lambda>y. f y = f x) xs = [x]"
proof (induction xs)
  case Nil
  then show ?case by simp
next
  case (Cons a xs)
  show ?case
  proof (cases "x = a")
    case True
    from Cons.prems(1) have "\<forall>y\<in>set xs. f y \<noteq> f a" by (fastforce simp add: image_iff)
    then have "filter (\<lambda>y. f y = f a) xs = []" by (simp add: filter_empty_conv)
    with True show ?thesis by simp
  next
    case False
    with Cons.prems have x: "x \<in> set xs" and "f a \<noteq> f x" by auto
    with Cons.IH Cons.prems(1) show ?thesis by simp
  qed
qed

lemma scanning_lines:
  assumes "scanning f e = Inr st"
  shows "scan_lines f init (fst (ScanLines (stdin_fails e) (stdin e))) = Inr st"
    and "snd (ScanLines (stdin_fails e) (stdin e)) = None"
  using assms
  by (auto simp add: scanning_def split: prod.splits sum.splits option.splits)

lemma scanning_Inl:
  assumes "scan_lines f init (fst (ScanLines (stdin_fails e) (stdin e))) = Inl x"
  shows "scanning f e = Inl x"
  using assms by (auto simp add: scanning_def split: prod.splits)

lemma sorted_data_set:
  assumes "sorted_data f e = Inr es"
  obtains st where "scanning f e = Inr st" and "es = sort_Slice (data st)"
    and "set es = set (data st)"
  using assms by (auto simp add: sorted_data_def sort_Slice_def split: sum.splits)

lemma scan_line_fatal_kind:
  "scan_line f st line = Inl x \<Longrightarrow> x = UnknownKeywordType (keywordRE_FindString line)"
  by (auto simp add: scan_line_def Let_def split: if_splits)

lemma scan_lines_fatal_kind:
  "scan_lines f st ls = Inl x \<Longrightarrow> \<exists>m. x = UnknownKeywordType m"
proof (induction ls arbitrary: st)
  case Nil
  then show ?case by simp
next
  case (Cons l ls)
  then show ?case
    by (auto split: sum.splits dest: scan_line_fatal_kind)
qed

lemma scanning_fatal_kind:
  "scanning f e = Inl x \<Longrightarrow> x \<noteq> ExecuteFailed"
  by (auto simp add: scanning_def split: prod.splits sum.splits option.splits
      dest: scan_lines_fatal_kind)

lemma Execute_exit:
  "exit (Execute room es) = None \<or> exit (Execute room es) = Some ExecuteFailed"
  by (simp add: Execute_def split: option.splits)

lemma Execute_returns: "exit (Execute room es) = None \<Longrightarrow> stdout (Execute room es) = tmpl es"
  by (simp add: Execute_def split: option.splits if_splits)

lemma ScanLines_tokens:
  "fst (ScanLines b buf) = fst (ScanLines b' buf)"
proof (induction b buf rule: ScanLines.induct)
  case (1 failing buf)
  show ?case
  proof (cases "MaxScanTokenSize \<le> length (takeWhile dot buf)")
    case True
    then show ?thesis
      by (subst ScanLines.simps, subst (2) ScanLines.simps) (simp add: Let_def)
  next
    case False
    note short = this
    show ?thesis
    proof (cases "dropWhile dot buf = []")
      case True
      with short show ?thesis
        by (subst ScanLines.simps, subst (2) ScanLines.simps) (simp add: Let_def)
    next
      case False
      with short "1.IH" [OF refl refl _ False]
      have "fst (ScanLines failing (tl (dropWhile dot buf))) =
          fst (ScanLines b' (tl (dropWhile dot buf)))"
        by simp
      with short False show ?thesis
        by (subst ScanLines.simps, subst (2) ScanLines.simps)
          (auto simp add: Let_def split: prod.splits)
    qed
  qed
qed

lemma run_iff: "run f e r \<longleftrightarrow> r = main f e"
proof (cases "scanning f e")
  case (Inl x)
  then show ?thesis by (simp add: run_def main_def sorted_data_def)
next
  case (Inr st)
  from scanning_inv [OF Inr] have d: "distinct (map Match (data st))"
    by (simp add: scan_inv_def)
  have m: "main f e = Execute (stdout_room e) (sort_Slice (data st))"
    by (simp add: main_def sorted_data_def Inr)
  show ?thesis
  proof
    assume "run f e r"
    then obtain after where a: "sort_Slice_contract (data st) after"
      and r: "r = Execute (stdout_room e) after"
      by (auto simp add: run_def Inr)
    from sort_Slice_contract_unique [OF d a] r m show "r = main f e" by simp
  next
    assume "r = main f e"
    with m sort_Slice_meets_contract [of "data st"] show "run f e r"
      by (auto simp add: run_def Inr)
  qed
qed

lemma main_returns:
  assumes "exit (main f e) = None"
  obtains st where "scanning f e = Inr st"
    and "stdout (main f e) = tmpl (sort_Slice (data st))"
proof (cases "scanning f e")
  case (Inl x)
  with assms show ?thesis by (simp add: main_def sorted_data_def)
next
  case (Inr st)
  then have "main f e = Execute (stdout_room e) (sort_Slice (data st))"
    by (simp add: main_def sorted_data_def)
  with assms Inr that show ?thesis by (simp add: Execute_returns)
qed

subsection \<open>The lines of a text\<close>

lemma split_lines_line:
  "list_all dot l \<Longrightarrow> split_lines (l @ newline # rest) = l # split_lines rest"
  by (induction l) (simp_all add: dot_def)

lemma split_lines_unlines:
  "list_all (list_all dot) ls \<Longrightarrow> split_lines (unlines ls) = ls"
proof (induction ls)
  case Nil
  then show ?case by (simp add: unlines_def)
next
  case (Cons l ls)
  have "unlines (l # ls) = l @ newline # unlines ls"
    by (simp add: unlines_def)
  with Cons show ?case by (simp add: split_lines_line)
qed

lemma main_returns_tmpl:
  assumes "sorted_data f e = Inr es" and "exit (main f e) = None"
  shows "stdout (main f e) = tmpl es"
  using assms by (simp add: main_def Execute_def split: option.splits if_splits)

section \<open>The claims\<close>

text \<open>
  C1. On the six-line example (a \<^verbatim>\<open>reserved_keyword:\<close> section with SELECT and WHERE, a
  blank line, an \<^verbatim>\<open>unreserved_keyword:\<close> section with NAME) the loop records SELECT and
  WHERE with category R and NAME with category U, in this order; the list handed to the
  template is NAME, SELECT, WHERE, whether or not a newline ends the last line; the run
  returns, and what it has written is the text given here line by line, with the three map
  entries and the three \<^verbatim>\<open>case\<close> clauses in that order; and the function \<^verbatim>\<open>GetKeywordID\<close> of
  the written text returns SELECT, WHERE and NAME for \<^verbatim>\<open>"select"\<close>, \<^verbatim>\<open>"where"\<close> and \<^verbatim>\<open>"name"\<close>,
  and IDENT for every other string.
\<close>

theorem six_line_example:
  \<open>(let e = \<lparr>stdin = unlines [''reserved_keyword:'', ''SELECT'', ''WHERE'', [],
                ''unreserved_keyword:'', ''NAME''], stdin_fails = False, stdout_room = None\<rparr>;
        es = [\<lparr>Lower = ''name'', Match = ''NAME'', Category = ''U''\<rparr>,
              \<lparr>Lower = ''select'', Match = ''SELECT'', Category = ''R''\<rparr>,
              \<lparr>Lower = ''where'', Match = ''WHERE'', Category = ''R''\<rparr>]
    in
      map_sum id data (scanning mapLower e) =
        Inr [\<lparr>Lower = ''select'', Match = ''SELECT'', Category = ''R''\<rparr>,
             \<lparr>Lower = ''where'', Match = ''WHERE'', Category = ''R''\<rparr>,
             \<lparr>Lower = ''name'', Match = ''NAME'', Category = ''U''\<rparr>] \<and>
      sorted_data mapLower e = Inr es \<and>
      sorted_data mapLower
        (e\<lparr>stdin := unlines [''reserved_keyword:'', ''SELECT'', ''WHERE'', [],
                ''unreserved_keyword:''] @ ''NAME''\<rparr>) = Inr es \<and>
      exit (main mapLower e) = None \<and>
      stdout (main mapLower e) = unlines
        [''// Code generated by cmd/all-keywords. DO NOT EDIT.'',
         ''// GENERATED FILE DO NOT EDIT'',
         [],
         ''package lex'',
         [],
         ''var Keywords = map[string]struct {'',
         CHR 0x09 # ''Tok int'',
         CHR 0x09 # ''Cat string'',
         ''}{'',
         ''"name": { NAME, "U" },'',
         ''"select": { SELECT, "R" },'',
         ''"where": { WHERE, "R" },'',
         ''}'',
         [],
         ''// GetKeywordID returns the lex id of the SQL keyword k or IDENT if k is'',
         ''// not a keyword.'',
         ''func GetKeywordID(k string) int32 {'',
         CHR 0x09 # ''// The previous implementation generated a map that did a string ->'',
         CHR 0x09 # ''// id lookup. Various ideas were benchmarked and the implementation below'',
         CHR 0x09 # ''// was the fastest of those, between 3% and 10% faster (at parsing, so the'',
         CHR 0x09 # ''// scanning speedup is even more) than the map implementation.'',
         CHR 0x09 # ''switch k {'',
         CHR 0x09 # ''case "name": return NAME'',
         CHR 0x09 # ''case "select": return SELECT'',
         CHR 0x09 # ''case "where": return WHERE'',
         CHR 0x09 # ''default: return IDENT'',
         CHR 0x09 # ''}'',
         ''}''] \<and>
      GetKeywordID (stdout (main mapLower e)) ''select'' = Some ''SELECT'' \<and>
      GetKeywordID (stdout (main mapLower e)) ''where'' = Some ''WHERE'' \<and>
      GetKeywordID (stdout (main mapLower e)) ''name'' = Some ''NAME'' \<and>
      (k \<notin> {''select'', ''where'', ''name''} \<longrightarrow>
         GetKeywordID (stdout (main mapLower e)) k = Some ''IDENT''))\<close>
proof -
  let ?e = "\<lparr>stdin = unlines [''reserved_keyword:'', ''SELECT'', ''WHERE'', [],
       ''unreserved_keyword:'', ''NAME''], stdin_fails = False, stdout_room = None\<rparr>"
  let ?es = "[\<lparr>Lower = ''name'', Match = ''NAME'', Category = ''U''\<rparr>,
              \<lparr>Lower = ''select'', Match = ''SELECT'', Category = ''R''\<rparr>,
              \<lparr>Lower = ''where'', Match = ''WHERE'', Category = ''R''\<rparr>]"
  let ?body = \<open>[CHR 0x09 # ''case "name": return NAME'',
         CHR 0x09 # ''case "select": return SELECT'',
         CHR 0x09 # ''case "where": return WHERE'',
         CHR 0x09 # ''default: return IDENT'']\<close>
  have 1: "scanning mapLower ?e =
     Inr \<lparr>keyword = True, category = ''U'',
       seen = (\<lambda>_. False)(''SELECT'' := True, ''WHERE'' := True, ''NAME'' := True),
       data = [\<lparr>Lower = ''select'', Match = ''SELECT'', Category = ''R''\<rparr>,
        \<lparr>Lower = ''where'', Match = ''WHERE'', Category = ''R''\<rparr>,
        \<lparr>Lower = ''name'', Match = ''NAME'', Category = ''U''\<rparr>]\<rparr>"
    by (subst scanning_unlines) (simp_all add: eval_simps)
  have "scanning mapLower \<lparr>stdin = unlines [''reserved_keyword:'', ''SELECT'', ''WHERE'', [],
       ''unreserved_keyword:''] @ ''NAME'', stdin_fails = False, stdout_room = None\<rparr> =
     Inr \<lparr>keyword = True, category = ''U'',
       seen = (\<lambda>_. False)(''SELECT'' := True, ''WHERE'' := True, ''NAME'' := True),
       data = [\<lparr>Lower = ''select'', Match = ''SELECT'', Category = ''R''\<rparr>,
        \<lparr>Lower = ''where'', Match = ''WHERE'', Category = ''R''\<rparr>,
        \<lparr>Lower = ''name'', Match = ''NAME'', Category = ''U''\<rparr>]\<rparr>"
    by (subst scanning_last_line) (simp_all add: 1 dot_def newline_def MaxScanTokenSize_def)
  then have 2: "sorted_data mapLower
      \<lparr>stdin = unlines [''reserved_keyword:'', ''SELECT'', ''WHERE'', [],
       ''unreserved_keyword:''] @ ''NAME'', stdin_fails = False, stdout_room = None\<rparr> = Inr ?es"
    by (simp add: sorted_data_def sort_Slice_def)
  have 3: "sorted_data mapLower ?e = Inr ?es"
    by (rule sorted_data_six_lines)
  then have m: "main mapLower ?e = \<lparr>stdout = tmpl ?es, exit = None\<rparr>"
    by (simp add: main_def Execute_def)
  have 4: "exit (main mapLower ?e) = None"
    by (simp add: m)
  have o: "stdout (main mapLower ?e) = tmpl ?es"
    by (simp add: m)
  have tt: \<open>tmpl ?es = unlines
        [''// Code generated by cmd/all-keywords. DO NOT EDIT.'',
         ''// GENERATED FILE DO NOT EDIT'',
         [],
         ''package lex'',
         [],
         ''var Keywords = map[string]struct {'',
         CHR 0x09 # ''Tok int'',
         CHR 0x09 # ''Cat string'',
         ''}{'',
         ''"name": { NAME, "U" },'',
         ''"select": { SELECT, "R" },'',
         ''"where": { WHERE, "R" },'',
         ''}'',
         [],
         ''// GetKeywordID returns the lex id of the SQL keyword k or IDENT if k is'',
         ''// not a keyword.'',
         ''func GetKeywordID(k string) int32 {'',
         CHR 0x09 # ''// The previous implementation generated a map that did a string ->'',
         CHR 0x09 # ''// id lookup. Various ideas were benchmarked and the implementation below'',
         CHR 0x09 # ''// was the fastest of those, between 3% and 10% faster (at parsing, so the'',
         CHR 0x09 # ''// scanning speedup is even more) than the map implementation.'',
         CHR 0x09 # ''switch k {'',
         CHR 0x09 # ''case "name": return NAME'',
         CHR 0x09 # ''case "select": return SELECT'',
         CHR 0x09 # ''case "where": return WHERE'',
         CHR 0x09 # ''default: return IDENT'',
         CHR 0x09 # ''}'',
         ''}'']\<close>
    by (simp add: tmpl_def tmpl_head_def tmpl_map_entry_def tmpl_middle_def tmpl_case_def
        tmpl_tail_def unlines_def tab_def)
  have 5: \<open>stdout (main mapLower ?e) = unlines
        [''// Code generated by cmd/all-keywords. DO NOT EDIT.'',
         ''// GENERATED FILE DO NOT EDIT'',
         [],
         ''package lex'',
         [],
         ''var Keywords = map[string]struct {'',
         CHR 0x09 # ''Tok int'',
         CHR 0x09 # ''Cat string'',
         ''}{'',
         ''"name": { NAME, "U" },'',
         ''"select": { SELECT, "R" },'',
         ''"where": { WHERE, "R" },'',
         ''}'',
         [],
         ''// GetKeywordID returns the lex id of the SQL keyword k or IDENT if k is'',
         ''// not a keyword.'',
         ''func GetKeywordID(k string) int32 {'',
         CHR 0x09 # ''// The previous implementation generated a map that did a string ->'',
         CHR 0x09 # ''// id lookup. Various ideas were benchmarked and the implementation below'',
         CHR 0x09 # ''// was the fastest of those, between 3% and 10% faster (at parsing, so the'',
         CHR 0x09 # ''// scanning speedup is even more) than the map implementation.'',
         CHR 0x09 # ''switch k {'',
         CHR 0x09 # ''case "name": return NAME'',
         CHR 0x09 # ''case "select": return SELECT'',
         CHR 0x09 # ''case "where": return WHERE'',
         CHR 0x09 # ''default: return IDENT'',
         CHR 0x09 # ''}'',
         ''}'']\<close>
    using o tt by (rule trans)
  have body: "switch_body (stdout (main mapLower ?e)) = ?body"
    unfolding 5 switch_body_def
    by (subst split_lines_unlines) (simp_all add: dot_def newline_def tab_def)
  have cs: \<open>those (map parse_clause ?body) =
      Some [Case ''name'' ''NAME'', Case ''select'' ''SELECT'', Case ''where'' ''WHERE'',
        Default ''IDENT'']\<close>
    by (simp add: parse_clause_def isSpace_def isIdentifier_def isWordChar_def isUpperAZ_def
        isLowerAZ_def isDigit_def Let_def)
  have 6: "GetKeywordID (stdout (main mapLower ?e)) k =
      (if k = ''name'' then Some ''NAME'' else if k = ''select'' then Some ''SELECT''
       else if k = ''where'' then Some ''WHERE'' else Some ''IDENT'')" for k
    unfolding GetKeywordID_def body cs by simp
  have 7: "GetKeywordID (stdout (main mapLower ?e)) ''select'' = Some ''SELECT''"
    and 8: "GetKeywordID (stdout (main mapLower ?e)) ''where'' = Some ''WHERE''"
    and 9: "GetKeywordID (stdout (main mapLower ?e)) ''name'' = Some ''NAME''"
    and 10: "k \<notin> {''select'', ''where'', ''name''} \<longrightarrow>
         GetKeywordID (stdout (main mapLower ?e)) k = Some ''IDENT''"
    by (simp_all add: 6)
  have 0: "map_sum id data (scanning mapLower ?e) =
        Inr [\<lparr>Lower = ''select'', Match = ''SELECT'', Category = ''R''\<rparr>,
             \<lparr>Lower = ''where'', Match = ''WHERE'', Category = ''R''\<rparr>,
             \<lparr>Lower = ''name'', Match = ''NAME'', Category = ''U''\<rparr>]"
    by (simp add: 1)
  have 11: "sorted_data mapLower
        (?e\<lparr>stdin := unlines [''reserved_keyword:'', ''SELECT'', ''WHERE'', [],
                ''unreserved_keyword:''] @ ''NAME''\<rparr>) = Inr ?es"
    using 2 by simp
  from 0 3 11 4 5 7 8 9 10 show ?thesis
    unfolding Let_def by (intro conjI)
qed

theorem six_line_example_witness:
  \<open>''foobar'' \<notin> {''select'', ''where'', ''name''} \<and>
   GetKeywordID
     (stdout (main (\<lambda>s. s)
        \<lparr>stdin = unlines [''reserved_keyword:'', ''SELECT'', ''WHERE'', [],
                ''unreserved_keyword:'', ''NAME''], stdin_fails = False, stdout_room = None\<rparr>))
     ''foobar'' = Some ''IDENT''\<close>
proof -
  have h: "''foobar'' \<notin> {''select'', ''where'', ''name''}" by simp
  from six_line_example [of "\<lambda>s. s" "''foobar''"]
  have "''foobar'' \<notin> {''select'', ''where'', ''name''} \<longrightarrow>
   GetKeywordID
     (stdout (main (\<lambda>s. s)
        \<lparr>stdin = unlines [''reserved_keyword:'', ''SELECT'', ''WHERE'', [],
                ''unreserved_keyword:'', ''NAME''], stdin_fails = False, stdout_room = None\<rparr>))
     ''foobar'' = Some ''IDENT''"
    unfolding Let_def by (elim conjE)
  with h show ?thesis by blast
qed

text \<open>
  C2. Whenever scanning succeeds, the list handed to the template is in ascending bytewise
  lexicographic order of \<^verbatim>\<open>Match\<close>, strictly so. What the run writes is an initial part of,
  and when the run returns all of, the following text: the head of the template, then one
  map entry for each element of that list, in the order of the list, then the middle of
  the template, then one \<^verbatim>\<open>case\<close> for each element, in the same order, then the tail. So the
  keys of the written mapping stand in ascending order of their \<^verbatim>\<open>Match\<close>.
\<close>

theorem sorted_data_ascending:
  assumes "sorted_data mapLower e = Inr es"
  shows \<open>sorted (map Match es) \<and> sorted_wrt (<) (map Match es) \<and>
    prefix (stdout (main mapLower e))
      (tmpl_head @
       concat (map (\<lambda>x. ''"'' @ Lower x @ ''": { '' @ Match x @ '', "'' @ Category x @
         ''" },'' @ [newline]) es) @
       tmpl_middle @
       concat (map (\<lambda>x. ''case "'' @ Lower x @ ''": return '' @ Match x @ [newline, tab]) es) @
       tmpl_tail) \<and>
    (exit (main mapLower e) = None \<longrightarrow>
       stdout (main mapLower e) =
         tmpl_head @
         concat (map (\<lambda>x. ''"'' @ Lower x @ ''": { '' @ Match x @ '', "'' @ Category x @
           ''" },'' @ [newline]) es) @
         tmpl_middle @
         concat (map (\<lambda>x. ''case "'' @ Lower x @ ''": return '' @ Match x @ [newline, tab]) es) @
         tmpl_tail)\<close>
proof -
  have t: \<open>tmpl es =
         tmpl_head @
         concat (map (\<lambda>x. ''"'' @ Lower x @ ''": { '' @ Match x @ '', "'' @ Category x @
           ''" },'' @ [newline]) es) @
         tmpl_middle @
         concat (map (\<lambda>x. ''case "'' @ Lower x @ ''": return '' @ Match x @ [newline, tab]) es) @
         tmpl_tail\<close>
  proof -
    have a: \<open>tmpl_map_entry =
        (\<lambda>x. ''"'' @ Lower x @ ''": { '' @ Match x @ '', "'' @ Category x @ ''" },'' @ [newline])\<close>
      by (rule ext) (simp add: tmpl_map_entry_def)
    have b: \<open>tmpl_case =
        (\<lambda>x. ''case "'' @ Lower x @ ''": return '' @ Match x @ [newline, tab])\<close>
      by (rule ext) (simp add: tmpl_case_def)
    show ?thesis by (simp only: tmpl_def a b)
  qed
  from assms have s: "sorted (map Match es)"
    by (auto simp add: sorted_data_def sort_Slice_def split: sum.splits)
  from s sorted_data_distinct [OF assms] have w: "sorted_wrt (<) (map Match es)"
    by (simp add: strict_sorted_iff)
  have p: "prefix (stdout (main mapLower e)) (tmpl es)"
    by (simp add: main_def assms Execute_def take_is_prefix split: option.splits)
  have r: "exit (main mapLower e) = None \<longrightarrow> stdout (main mapLower e) = tmpl es"
    using assms by (simp add: main_returns_tmpl)
  from s w p r show ?thesis
    unfolding t by (intro conjI)
qed

theorem sorted_data_ascending_witness:
  \<open>sorted_data (\<lambda>s. s) \<lparr>stdin = unlines [''unreserved_keyword:'', ''ZONE'', ''ABORT''],
       stdin_fails = False, stdout_room = None\<rparr> =
     Inr [\<lparr>Lower = ''abort'', Match = ''ABORT'', Category = ''U''\<rparr>,
          \<lparr>Lower = ''zone'', Match = ''ZONE'', Category = ''U''\<rparr>] \<and>
   sorted_wrt (<) [''ABORT'', ''ZONE''] \<and>
   exit (main (\<lambda>s. s) \<lparr>stdin = unlines [''unreserved_keyword:'', ''ZONE'', ''ABORT''],
       stdin_fails = False, stdout_room = None\<rparr>) = None \<and>
   stdout (main (\<lambda>s. s) \<lparr>stdin = unlines [''unreserved_keyword:'', ''ZONE'', ''ABORT''],
       stdin_fails = False, stdout_room = None\<rparr>) = unlines
        [''// Code generated by cmd/all-keywords. DO NOT EDIT.'',
         ''// GENERATED FILE DO NOT EDIT'',
         [],
         ''package lex'',
         [],
         ''var Keywords = map[string]struct {'',
         CHR 0x09 # ''Tok int'',
         CHR 0x09 # ''Cat string'',
         ''}{'',
         ''"abort": { ABORT, "U" },'',
         ''"zone": { ZONE, "U" },'',
         ''}'',
         [],
         ''// GetKeywordID returns the lex id of the SQL keyword k or IDENT if k is'',
         ''// not a keyword.'',
         ''func GetKeywordID(k string) int32 {'',
         CHR 0x09 # ''// The previous implementation generated a map that did a string ->'',
         CHR 0x09 # ''// id lookup. Various ideas were benchmarked and the implementation below'',
         CHR 0x09 # ''// was the fastest of those, between 3% and 10% faster (at parsing, so the'',
         CHR 0x09 # ''// scanning speedup is even more) than the map implementation.'',
         CHR 0x09 # ''switch k {'',
         CHR 0x09 # ''case "abort": return ABORT'',
         CHR 0x09 # ''case "zone": return ZONE'',
         CHR 0x09 # ''default: return IDENT'',
         CHR 0x09 # ''}'',
         ''}'']\<close>
proof -
  let ?e = "\<lparr>stdin = unlines [''unreserved_keyword:'', ''ZONE'', ''ABORT''],
       stdin_fails = False, stdout_room = None\<rparr>"
  let ?es = "[\<lparr>Lower = ''abort'', Match = ''ABORT'', Category = ''U''\<rparr>,
          \<lparr>Lower = ''zone'', Match = ''ZONE'', Category = ''U''\<rparr>]"
  have "scanning (\<lambda>s. s) ?e =
     Inr \<lparr>keyword = True, category = ''U'',
       seen = (\<lambda>_. False)(''ZONE'' := True, ''ABORT'' := True),
       data = [\<lparr>Lower = ''zone'', Match = ''ZONE'', Category = ''U''\<rparr>,
          \<lparr>Lower = ''abort'', Match = ''ABORT'', Category = ''U''\<rparr>]\<rparr>"
    by (subst scanning_unlines) (simp_all add: eval_simps)
  then have sd: "sorted_data (\<lambda>s. s) ?e = Inr ?es"
    by (simp add: sorted_data_def sort_Slice_def)
  then have x: "exit (main (\<lambda>s. s) ?e) = None"
    by (simp add: main_def Execute_def)
  note t = sorted_data_ascending [OF sd]
  from t have "sorted_wrt (<) (map Match ?es)" by (elim conjE)
  then have w: "sorted_wrt (<) [''ABORT'', ''ZONE'']" by simp
  from t have \<open>exit (main (\<lambda>s. s) ?e) = None \<longrightarrow>
       stdout (main (\<lambda>s. s) ?e) =
         tmpl_head @
         concat (map (\<lambda>x. ''"'' @ Lower x @ ''": { '' @ Match x @ '', "'' @ Category x @
           ''" },'' @ [newline]) ?es) @
         tmpl_middle @
         concat (map (\<lambda>x. ''case "'' @ Lower x @ ''": return '' @ Match x @ [newline, tab]) ?es) @
         tmpl_tail\<close>
    by (elim conjE)
  with x have \<open>stdout (main (\<lambda>s. s) ?e) =
         tmpl_head @
         concat (map (\<lambda>x. ''"'' @ Lower x @ ''": { '' @ Match x @ '', "'' @ Category x @
           ''" },'' @ [newline]) ?es) @
         tmpl_middle @
         concat (map (\<lambda>x. ''case "'' @ Lower x @ ''": return '' @ Match x @ [newline, tab]) ?es) @
         tmpl_tail\<close>
    by (rule rev_mp)
  moreover have \<open>tmpl_head @
         concat (map (\<lambda>x. ''"'' @ Lower x @ ''": { '' @ Match x @ '', "'' @ Category x @
           ''" },'' @ [newline]) ?es) @
         tmpl_middle @
         concat (map (\<lambda>x. ''case "'' @ Lower x @ ''": return '' @ Match x @ [newline, tab]) ?es) @
         tmpl_tail = unlines
        [''// Code generated by cmd/all-keywords. DO NOT EDIT.'',
         ''// GENERATED FILE DO NOT EDIT'',
         [],
         ''package lex'',
         [],
         ''var Keywords = map[string]struct {'',
         CHR 0x09 # ''Tok int'',
         CHR 0x09 # ''Cat string'',
         ''}{'',
         ''"abort": { ABORT, "U" },'',
         ''"zone": { ZONE, "U" },'',
         ''}'',
         [],
         ''// GetKeywordID returns the lex id of the SQL keyword k or IDENT if k is'',
         ''// not a keyword.'',
         ''func GetKeywordID(k string) int32 {'',
         CHR 0x09 # ''// The previous implementation generated a map that did a string ->'',
         CHR 0x09 # ''// id lookup. Various ideas were benchmarked and the implementation below'',
         CHR 0x09 # ''// was the fastest of those, between 3% and 10% faster (at parsing, so the'',
         CHR 0x09 # ''// scanning speedup is even more) than the map implementation.'',
         CHR 0x09 # ''switch k {'',
         CHR 0x09 # ''case "abort": return ABORT'',
         CHR 0x09 # ''case "zone": return ZONE'',
         CHR 0x09 # ''default: return IDENT'',
         CHR 0x09 # ''}'',
         ''}'']\<close>
    by (simp add: tmpl_head_def tmpl_middle_def tmpl_tail_def unlines_def tab_def)
  ultimately have o: \<open>stdout (main (\<lambda>s. s) ?e) = unlines
        [''// Code generated by cmd/all-keywords. DO NOT EDIT.'',
         ''// GENERATED FILE DO NOT EDIT'',
         [],
         ''package lex'',
         [],
         ''var Keywords = map[string]struct {'',
         CHR 0x09 # ''Tok int'',
         CHR 0x09 # ''Cat string'',
         ''}{'',
         ''"abort": { ABORT, "U" },'',
         ''"zone": { ZONE, "U" },'',
         ''}'',
         [],
         ''// GetKeywordID returns the lex id of the SQL keyword k or IDENT if k is'',
         ''// not a keyword.'',
         ''func GetKeywordID(k string) int32 {'',
         CHR 0x09 # ''// The previous implementation generated a map that did a string ->'',
         CHR 0x09 # ''// id lookup. Various ideas were benchmarked and the implementation below'',
         CHR 0x09 # ''// was the fastest of those, between 3% and 10% faster (at parsing, so the'',
         CHR 0x09 # ''// scanning speedup is even more) than the map implementation.'',
         CHR 0x09 # ''switch k {'',
         CHR 0x09 # ''case "abort": return ABORT'',
         CHR 0x09 # ''case "zone": return ZONE'',
         CHR 0x09 # ''default: return IDENT'',
         CHR 0x09 # ''}'',
         ''}'']\<close>
    by (rule trans)
  from sd w x o show ?thesis by (intro conjI)
qed

text \<open>
  C3. In the list handed to the template no \<^verbatim>\<open>Match\<close> occurs twice. Take any line of the
  input that the loop reaches with the flag set and that holds a token (it is not a header
  and has an upper-case letter). If the token has not been seen before that line, the final
  list has exactly one entry for it, and that entry carries the category current at that
  line. If it has been seen, the line changes nothing and raises no error, and the final
  list has exactly the one entry recorded earlier.
\<close>

theorem Match_recorded_once:
  assumes "sorted_data mapLower e = Inr es"
  shows "distinct (map Match es) \<and>
    (\<forall>pre line post st m.
       fst (ScanLines (stdin_fails e) (stdin e)) = pre @ line # post \<and>
       scan_lines mapLower init pre = Inr st \<and>
       keyword st \<and> line \<noteq> [] \<and> keywordRE_FindString line = [] \<and>
       pipeRE_FindString line = m \<and> m \<noteq> [] \<longrightarrow>
         (seen st m \<longleftrightarrow> m \<in> Match ` set (data st)) \<and>
         (\<not> seen st m \<longrightarrow>
            filter (\<lambda>x. Match x = m) es =
              [\<lparr>Lower = ToLower mapLower m, Match = m, Category = category st\<rparr>]) \<and>
         (seen st m \<longrightarrow>
            scan_line mapLower st line = Inr st \<and>
            (\<exists>x. x \<in> set (data st) \<and> Match x = m \<and> filter (\<lambda>y. Match y = m) es = [x])))"
proof -
  from assms obtain stf where sc: "scanning mapLower e = Inr stf"
    and set_es: "set es = set (data stf)"
    by (rule sorted_data_set)
  have d: "distinct (map Match es)" using assms by (rule sorted_data_distinct)
  have once: "filter (\<lambda>y. Match y = Match x) es = [x]" if "x \<in> set es" for x
    using d that by (rule filter_distinct_key)
  have step: "(seen st m \<longleftrightarrow> m \<in> Match ` set (data st)) \<and>
         (\<not> seen st m \<longrightarrow>
            filter (\<lambda>x. Match x = m) es =
              [\<lparr>Lower = ToLower mapLower m, Match = m, Category = category st\<rparr>]) \<and>
         (seen st m \<longrightarrow>
            scan_line mapLower st line = Inr st \<and>
            (\<exists>x. x \<in> set (data st) \<and> Match x = m \<and> filter (\<lambda>y. Match y = m) es = [x]))"
    if ls: "fst (ScanLines (stdin_fails e) (stdin e)) = pre @ line # post"
      and pre: "scan_lines mapLower init pre = Inr st"
      and k: "keyword st" and ne: "line \<noteq> []" and nh: "keywordRE_FindString line = []"
      and m: "pipeRE_FindString line = m" and mne: "m \<noteq> []"
    for pre line post st m
  proof -
    from scanning_lines(1) [OF sc] ls pre
    obtain st1 where s1: "scan_line mapLower st line = Inr st1"
      and rest: "scan_lines mapLower st1 post = Inr stf"
      by (auto simp add: scan_lines_append split: sum.splits)
    from scan_lines_data_prefix [OF rest] have sub: "set (data st1) \<subseteq> set es"
      unfolding set_es by (rule set_mono_prefix)
    from scan_lines_inv [OF pre scan_inv_init]
    have seen: "seen st m \<longleftrightarrow> m \<in> Match ` set (data st)"
      by (simp add: scan_inv_def)
    have new: "filter (\<lambda>x. Match x = m) es =
        [\<lparr>Lower = ToLower mapLower m, Match = m, Category = category st\<rparr>]"
      if "\<not> seen st m"
    proof -
      from that s1 k ne nh m mne
      have "\<lparr>Lower = ToLower mapLower m, Match = m, Category = category st\<rparr> \<in> set (data st1)"
        by (auto simp add: scan_line_def Let_def)
      with sub have "\<lparr>Lower = ToLower mapLower m, Match = m, Category = category st\<rparr> \<in> set es"
        by blast
      from once [OF this] show ?thesis by simp
    qed
    have old: "scan_line mapLower st line = Inr st \<and>
        (\<exists>x. x \<in> set (data st) \<and> Match x = m \<and> filter (\<lambda>y. Match y = m) es = [x])"
      if "seen st m"
    proof -
      from that ne nh m have same: "scan_line mapLower st line = Inr st"
        by (simp add: scan_line_def Let_def)
      with s1 have "st1 = st" by simp
      from that seen obtain x where x: "x \<in> set (data st)" and mx: "Match x = m" by auto
      with sub \<open>st1 = st\<close> have "x \<in> set es" by blast
      from once [OF this] mx have "filter (\<lambda>y. Match y = m) es = [x]" by simp
      with same x mx show ?thesis by blast
    qed
    from seen new old show ?thesis by blast
  qed
  from d step show ?thesis by blast
qed

theorem Match_recorded_once_witness:
  \<open>sorted_data (\<lambda>s. s)
     \<lparr>stdin = unlines [''reserved_keyword:'', ''NAME'', [], ''unreserved_keyword:'', ''NAME''],
      stdin_fails = False, stdout_room = None\<rparr> =
     Inr [\<lparr>Lower = ''name'', Match = ''NAME'', Category = ''R''\<rparr>] \<and>
   scan_lines (\<lambda>s. s) init [''reserved_keyword:'', ''NAME'', [], ''unreserved_keyword:''] =
     Inr \<lparr>keyword = True, category = ''U'', seen = (\<lambda>_. False)(''NAME'' := True),
       data = [\<lparr>Lower = ''name'', Match = ''NAME'', Category = ''R''\<rparr>]\<rparr> \<and>
   scan_line (\<lambda>s. s)
     \<lparr>keyword = True, category = ''U'', seen = (\<lambda>_. False)(''NAME'' := True),
       data = [\<lparr>Lower = ''name'', Match = ''NAME'', Category = ''R''\<rparr>]\<rparr> ''NAME'' =
     Inr \<lparr>keyword = True, category = ''U'', seen = (\<lambda>_. False)(''NAME'' := True),
       data = [\<lparr>Lower = ''name'', Match = ''NAME'', Category = ''R''\<rparr>]\<rparr> \<and>
   filter (\<lambda>x. Match x = ''NAME'') [\<lparr>Lower = ''name'', Match = ''NAME'', Category = ''R''\<rparr>] =
     [\<lparr>Lower = ''name'', Match = ''NAME'', Category = ''R''\<rparr>]\<close>
proof -
  let ?e = "\<lparr>stdin = unlines [''reserved_keyword:'', ''NAME'', [], ''unreserved_keyword:'',
      ''NAME''], stdin_fails = False, stdout_room = None\<rparr>"
  let ?st = "\<lparr>keyword = True, category = ''U'', seen = (\<lambda>_. False)(''NAME'' := True),
       data = [\<lparr>Lower = ''name'', Match = ''NAME'', Category = ''R''\<rparr>]\<rparr>"
  have "scanning (\<lambda>s. s) ?e = Inr ?st"
    by (subst scanning_unlines) (simp_all add: eval_simps)
  then have sd: "sorted_data (\<lambda>s. s) ?e =
      Inr [\<lparr>Lower = ''name'', Match = ''NAME'', Category = ''R''\<rparr>]"
    by (simp add: sorted_data_def sort_Slice_def)
  have ls: "fst (ScanLines (stdin_fails ?e) (stdin ?e)) =
      [''reserved_keyword:'', ''NAME'', [], ''unreserved_keyword:''] @ ''NAME'' # []"
    by (simp, subst ScanLines_unlines) (simp_all add: eval_simps)
  have pre: "scan_lines (\<lambda>s. s) init [''reserved_keyword:'', ''NAME'', [],
      ''unreserved_keyword:''] = Inr ?st"
    by (simp add: eval_simps)
  have k: "keyword ?st" by simp
  have ne: "''NAME'' \<noteq> []" by simp
  have nh: "keywordRE_FindString ''NAME'' = []" by (simp add: dot_def newline_def)
  have m: "pipeRE_FindString ''NAME'' = ''NAME''"
    by (simp add: isUpperAZ_def dot_def newline_def)
  have seen: "seen ?st ''NAME''" by simp
  from Match_recorded_once [OF sd, THEN conjunct2, rule_format,
      of "[''reserved_keyword:'', ''NAME'', [], ''unreserved_keyword:'']" "''NAME''" "[]"
        ?st "''NAME''"]
    ls pre k ne nh m
  have "seen ?st ''NAME'' \<longrightarrow>
      scan_line (\<lambda>s. s) ?st ''NAME'' = Inr ?st \<and>
      (\<exists>x. x \<in> set (data ?st) \<and> Match x = ''NAME'' \<and>
        filter (\<lambda>y. Match y = ''NAME'')
          [\<lparr>Lower = ''name'', Match = ''NAME'', Category = ''R''\<rparr>] = [x])"
    by blast
  with seen have "scan_line (\<lambda>s. s) ?st ''NAME'' = Inr ?st"
    and "\<exists>x. x \<in> set (data ?st) \<and> Match x = ''NAME'' \<and>
        filter (\<lambda>y. Match y = ''NAME'')
          [\<lparr>Lower = ''name'', Match = ''NAME'', Category = ''R''\<rparr>] = [x]"
    by blast+
  then have "scan_line (\<lambda>s. s) ?st ''NAME'' = Inr ?st"
    and "filter (\<lambda>x. Match x = ''NAME'')
        [\<lparr>Lower = ''name'', Match = ''NAME'', Category = ''R''\<rparr>] =
      [\<lparr>Lower = ''name'', Match = ''NAME'', Category = ''R''\<rparr>]"
    by auto
  with sd pre show ?thesis by (intro conjI)
qed

text \<open>
  C4, as the code has it. The loop suppresses repeated \<^verbatim>\<open>Match\<close> values, not repeated
  \<^verbatim>\<open>Lower\<close> values. So the \<^verbatim>\<open>Lower\<close> keys of the final list are pairwise different exactly when
  no two different recorded tokens have the same lower-case form; in particular whenever
  every recorded token is ASCII text without a lower-case letter a to z.
\<close>

theorem Lower_unique_iff:
  assumes "sorted_data mapLower e = Inr es"
  shows "(distinct (map Lower es) \<longleftrightarrow> inj_on (ToLower mapLower) (set (map Match es))) \<and>
    (list_all (\<lambda>x. list_all isASCII (Match x) \<and> list_all (\<lambda>c. \<not> isLowerAZ c) (Match x)) es \<longrightarrow>
       distinct (map Lower es))"
proof -
  from assms obtain st where sc: "scanning mapLower e = Inr st"
    and set_es: "set es = set (data st)"
    by (rule sorted_data_set)
  from scanning_inv [OF sc] set_es have "\<forall>x\<in>set es. Lower x = ToLower mapLower (Match x)"
    by (simp add: scan_inv_def list_all_iff)
  then have l: "map Lower es = map (ToLower mapLower) (map Match es)"
    by simp
  have d: "distinct (map Match es)" using assms by (rule sorted_data_distinct)
  have 1: "distinct (map Lower es) \<longleftrightarrow> inj_on (ToLower mapLower) (set (map Match es))"
    unfolding l using d by (simp only: distinct_map) simp
  have 2: "distinct (map Lower es)"
    if a: "list_all (\<lambda>x. list_all isASCII (Match x) \<and> list_all (\<lambda>c. \<not> isLowerAZ c) (Match x)) es"
  proof -
    have "inj_on (ToLower mapLower) (set (map Match es))"
    proof (rule inj_onI)
      fix s t
      assume s: "s \<in> set (map Match es)" and t: "t \<in> set (map Match es)"
        and eq: "ToLower mapLower s = ToLower mapLower t"
      from s a have sa: "list_all isASCII s" and sl: "list_all (\<lambda>c. \<not> isLowerAZ c) s"
        by (auto simp add: list_all_iff)
      from t a have ta: "list_all isASCII t" and tl: "list_all (\<lambda>c. \<not> isLowerAZ c) t"
        by (auto simp add: list_all_iff)
      from eq sa ta have "map lowerASCII s = map lowerASCII t"
        by (simp add: ToLower_def)
      with sl tl show "s = t" by (rule map_lowerASCII_inj)
    qed
    with 1 show ?thesis by simp
  qed
  from 1 2 show ?thesis by blast
qed

theorem Lower_unique_iff_witness:
  \<open>sorted_data (\<lambda>s. s) \<lparr>stdin = unlines [''col_name_keyword:'', ''BIT'', ''CHAR''],
       stdin_fails = False, stdout_room = None\<rparr> =
     Inr [\<lparr>Lower = ''bit'', Match = ''BIT'', Category = ''C''\<rparr>,
          \<lparr>Lower = ''char'', Match = ''CHAR'', Category = ''C''\<rparr>] \<and>
   list_all (\<lambda>x. list_all isASCII (Match x) \<and> list_all (\<lambda>c. \<not> isLowerAZ c) (Match x))
     [\<lparr>Lower = ''bit'', Match = ''BIT'', Category = ''C''\<rparr>,
      \<lparr>Lower = ''char'', Match = ''CHAR'', Category = ''C''\<rparr>] \<and>
   distinct (map Lower [\<lparr>Lower = ''bit'', Match = ''BIT'', Category = ''C''\<rparr>,
      \<lparr>Lower = ''char'', Match = ''CHAR'', Category = ''C''\<rparr>])\<close>
proof -
  have "scanning (\<lambda>s. s) \<lparr>stdin = unlines [''col_name_keyword:'', ''BIT'', ''CHAR''],
       stdin_fails = False, stdout_room = None\<rparr> =
     Inr \<lparr>keyword = True, category = ''C'',
       seen = (\<lambda>_. False)(''BIT'' := True, ''CHAR'' := True),
       data = [\<lparr>Lower = ''bit'', Match = ''BIT'', Category = ''C''\<rparr>,
          \<lparr>Lower = ''char'', Match = ''CHAR'', Category = ''C''\<rparr>]\<rparr>"
    by (subst scanning_unlines) (simp_all add: eval_simps)
  then have sd: "sorted_data (\<lambda>s. s) \<lparr>stdin = unlines [''col_name_keyword:'', ''BIT'', ''CHAR''],
       stdin_fails = False, stdout_room = None\<rparr> =
     Inr [\<lparr>Lower = ''bit'', Match = ''BIT'', Category = ''C''\<rparr>,
          \<lparr>Lower = ''char'', Match = ''CHAR'', Category = ''C''\<rparr>]"
    by (simp add: sorted_data_def sort_Slice_def)
  have a: "list_all (\<lambda>x. list_all isASCII (Match x) \<and> list_all (\<lambda>c. \<not> isLowerAZ c) (Match x))
     [\<lparr>Lower = ''bit'', Match = ''BIT'', Category = ''C''\<rparr>,
      \<lparr>Lower = ''char'', Match = ''CHAR'', Category = ''C''\<rparr>]"
    by (simp add: isASCII_def isLowerAZ_def)
  from Lower_unique_iff [OF sd, THEN conjunct2] a
  have "distinct (map Lower [\<lparr>Lower = ''bit'', Match = ''BIT'', Category = ''C''\<rparr>,
      \<lparr>Lower = ''char'', Match = ''CHAR'', Category = ''C''\<rparr>])"
    by (rule mp)
  with sd a show ?thesis by (intro conjI)
qed

text \<open>
  The tokens \<^verbatim>\<open>SELECT\<close> and \<^verbatim>\<open>Select\<close> differ, so both are recorded, and both have the
  key \<^verbatim>\<open>select\<close>.
\<close>

theorem Lower_repeated:
  \<open>sorted_data (\<lambda>s. s) \<lparr>stdin = unlines [''reserved_keyword:'', ''SELECT'', ''Select''],
       stdin_fails = False, stdout_room = None\<rparr> =
     Inr [\<lparr>Lower = ''select'', Match = ''SELECT'', Category = ''R''\<rparr>,
          \<lparr>Lower = ''select'', Match = ''Select'', Category = ''R''\<rparr>] \<and>
   \<not> distinct (map Lower [\<lparr>Lower = ''select'', Match = ''SELECT'', Category = ''R''\<rparr>,
          \<lparr>Lower = ''select'', Match = ''Select'', Category = ''R''\<rparr>])\<close>
proof -
  have "scanning (\<lambda>s. s) \<lparr>stdin = unlines [''reserved_keyword:'', ''SELECT'', ''Select''],
       stdin_fails = False, stdout_room = None\<rparr> =
     Inr \<lparr>keyword = True, category = ''R'',
       seen = (\<lambda>_. False)(''SELECT'' := True, ''Select'' := True),
       data = [\<lparr>Lower = ''select'', Match = ''SELECT'', Category = ''R''\<rparr>,
          \<lparr>Lower = ''select'', Match = ''Select'', Category = ''R''\<rparr>]\<rparr>"
    by (subst scanning_unlines) (simp_all add: eval_simps)
  then show ?thesis
    by (simp add: sorted_data_def sort_Slice_def)
qed

text \<open>
  C5, as the code has it. A line (free of newlines, as every line of the scanner is) matches
  the header pattern exactly when it contains \<^verbatim>\<open>_keyword:\<close>; it need not end there. The
  matched text is the longest prefix of the line that ends in \<^verbatim>\<open>_keyword:\<close>, the whole
  line when the line ends in \<^verbatim>\<open>_keyword:\<close>. On a matching line the loop looks the matched
  text up in the table of six headers: when it is a key, the flag is set and the category
  is the table's value; when it is not, the loop stops with the fatal error that carries the
  matched text, whatever follows, and the run writes nothing.
\<close>

theorem header_line:
  assumes "list_all dot line"
  shows "(keywordRE_FindString line \<noteq> [] \<longleftrightarrow> (\<exists>pre post. line = pre @ ''_keyword:'' @ post)) \<and>
    prefix (keywordRE_FindString line) line \<and>
    (keywordRE_FindString line \<noteq> [] \<longrightarrow> suffix ''_keyword:'' (keywordRE_FindString line)) \<and>
    (\<forall>m. prefix m line \<and> suffix ''_keyword:'' m \<longrightarrow>
       length m \<le> length (keywordRE_FindString line)) \<and>
    (suffix ''_keyword:'' line \<longrightarrow> keywordRE_FindString line = line) \<and>
    (keywordRE_FindString line \<in> set (map fst categories_table) \<longrightarrow>
       scan_line mapLower st line =
         Inr (st\<lparr>keyword := True, category := categories (keywordRE_FindString line)\<rparr>) \<and>
       categories (keywordRE_FindString line) \<in> set (map snd categories_table)) \<and>
    (keywordRE_FindString line \<noteq> [] \<and>
     keywordRE_FindString line \<notin> set (map fst categories_table) \<longrightarrow>
       scan_line mapLower st line = Inl (UnknownKeywordType (keywordRE_FindString line)) \<and>
       (\<forall>pre post e.
          scan_lines mapLower init pre = Inr st \<and>
          fst (ScanLines (stdin_fails e) (stdin e)) = pre @ line # post \<longrightarrow>
          main mapLower e =
            \<lparr>stdout = [], exit = Some (UnknownKeywordType (keywordRE_FindString line))\<rparr>)) \<and>
    length categories_table = 6 \<and> distinct (map fst categories_table) \<and>
    set (map snd categories_table) = {''C'', ''U'', ''T'', ''R''}"
proof -
  let ?m = "keywordRE_FindString line"
  have 1: "?m \<noteq> [] \<longleftrightarrow> (\<exists>pre post. line = pre @ ''_keyword:'' @ post)"
    using assms by (rule keywordRE_matches_iff)
  have 2: "prefix ?m line" by (rule keywordRE_prefix)
  have 3: "?m \<noteq> [] \<longrightarrow> suffix ''_keyword:'' ?m"
    by (simp add: keywordRE_suffix)
  have 4: "\<forall>m. prefix m line \<and> suffix ''_keyword:'' m \<longrightarrow> length m \<le> length ?m"
    using assms by (simp add: keywordRE_longest)
  have 5: "suffix ''_keyword:'' line \<longrightarrow> ?m = line"
    using assms by (simp add: keywordRE_whole_line)
  have 6: "?m \<in> set (map fst categories_table) \<longrightarrow>
       scan_line mapLower st line = Inr (st\<lparr>keyword := True, category := categories ?m\<rparr>) \<and>
       categories ?m \<in> set (map snd categories_table)"
  proof
    assume k: "?m \<in> set (map fst categories_table)"
    then have c: "categories ?m \<noteq> []" by (simp only: categories_known)
    from k have ne: "?m \<noteq> []" by (auto simp add: categories_table_def)
    from k have "categories ?m \<in> set (map snd categories_table)"
      by (auto simp add: categories_def categories_table_def)
    with c ne show "scan_line mapLower st line =
        Inr (st\<lparr>keyword := True, category := categories ?m\<rparr>) \<and>
       categories ?m \<in> set (map snd categories_table)"
      by (simp add: scan_line_def Let_def)
  qed
  have 7: "?m \<noteq> [] \<and> ?m \<notin> set (map fst categories_table) \<longrightarrow>
       scan_line mapLower st line = Inl (UnknownKeywordType ?m) \<and>
       (\<forall>pre post e.
          scan_lines mapLower init pre = Inr st \<and>
          fst (ScanLines (stdin_fails e) (stdin e)) = pre @ line # post \<longrightarrow>
          main mapLower e = \<lparr>stdout = [], exit = Some (UnknownKeywordType ?m)\<rparr>)"
  proof
    assume a: "?m \<noteq> [] \<and> ?m \<notin> set (map fst categories_table)"
    then have "categories ?m = []" using categories_known [of ?m] by blast
    with a have f: "scan_line mapLower st line = Inl (UnknownKeywordType ?m)"
      by (simp add: scan_line_def Let_def)
    have "main mapLower e = \<lparr>stdout = [], exit = Some (UnknownKeywordType ?m)\<rparr>"
      if "scan_lines mapLower init pre = Inr st"
        and "fst (ScanLines (stdin_fails e) (stdin e)) = pre @ line # post" for pre post e
      using scan_lines_fatal [OF that(1) f, of post] that(2) by (simp add: main_scan_fatal)
    with f show "scan_line mapLower st line = Inl (UnknownKeywordType ?m) \<and>
       (\<forall>pre post e.
          scan_lines mapLower init pre = Inr st \<and>
          fst (ScanLines (stdin_fails e) (stdin e)) = pre @ line # post \<longrightarrow>
          main mapLower e = \<lparr>stdout = [], exit = Some (UnknownKeywordType ?m)\<rparr>)"
      by blast
  qed
  have 8: "length categories_table = 6 \<and> distinct (map fst categories_table) \<and>
    set (map snd categories_table) = {''C'', ''U'', ''T'', ''R''}"
    by (auto simp add: categories_table_def)
  from 1 2 3 4 5 6 7 8 show ?thesis by (intro conjI) blast+
qed

theorem header_line_witness:
  \<open>list_all dot ''reserved_keyword: SELECT'' \<and>
   keywordRE_FindString ''reserved_keyword: SELECT'' = ''reserved_keyword:'' \<and>
   scan_line (\<lambda>s. s) init ''reserved_keyword: SELECT'' =
     Inr (init\<lparr>keyword := True, category := ''R''\<rparr>) \<and>
   list_all dot ''foo_keyword:'' \<and>
   keywordRE_FindString ''foo_keyword:'' = ''foo_keyword:'' \<and>
   ''foo_keyword:'' \<notin> set (map fst categories_table) \<and>
   main (\<lambda>s. s) \<lparr>stdin = unlines [''foo_keyword:'', ''SELECT''], stdin_fails = False,
       stdout_room = None\<rparr> =
     \<lparr>stdout = [], exit = Some (UnknownKeywordType ''foo_keyword:'')\<rparr>\<close>
proof -
  have d1: "list_all dot ''reserved_keyword: SELECT''" by (simp add: dot_def newline_def)
  have k1: "keywordRE_FindString ''reserved_keyword: SELECT'' = ''reserved_keyword:''"
    by (simp add: dot_def newline_def)
  have c1: "categories ''reserved_keyword:'' = ''R''"
    by (simp add: categories_def categories_table_def)
  have t1: "keywordRE_FindString ''reserved_keyword: SELECT'' \<in> set (map fst categories_table)"
    unfolding k1 by (simp add: categories_table_def)
  from header_line [OF d1, of "\<lambda>s. s" init]
  have "keywordRE_FindString ''reserved_keyword: SELECT'' \<in> set (map fst categories_table) \<longrightarrow>
       scan_line (\<lambda>s. s) init ''reserved_keyword: SELECT'' =
         Inr (init\<lparr>keyword := True,
           category := categories (keywordRE_FindString ''reserved_keyword: SELECT'')\<rparr>) \<and>
       categories (keywordRE_FindString ''reserved_keyword: SELECT'') \<in>
         set (map snd categories_table)"
    by (elim conjE)
  with t1 have s1: "scan_line (\<lambda>s. s) init ''reserved_keyword: SELECT'' =
     Inr (init\<lparr>keyword := True, category := ''R''\<rparr>)"
    unfolding k1 c1 by blast
  have d2: "list_all dot ''foo_keyword:''" by (simp add: dot_def newline_def)
  have k2: "keywordRE_FindString ''foo_keyword:'' = ''foo_keyword:''"
    by (simp add: dot_def newline_def)
  have t2: "''foo_keyword:'' \<notin> set (map fst categories_table)"
    by (simp add: categories_table_def)
  have l2: "fst (ScanLines (stdin_fails \<lparr>stdin = unlines [''foo_keyword:'', ''SELECT''],
        stdin_fails = False, stdout_room = None\<rparr>)
      (stdin \<lparr>stdin = unlines [''foo_keyword:'', ''SELECT''], stdin_fails = False,
        stdout_room = None\<rparr>)) = [] @ ''foo_keyword:'' # [''SELECT'']"
    by (simp, subst ScanLines_unlines) (simp_all add: eval_simps)
  have i2: "scan_lines (\<lambda>s. s) init [] = Inr init" by simp
  have n2: "''foo_keyword:'' \<noteq> []" by simp
  from header_line [OF d2, of "\<lambda>s. s" init]
  have "keywordRE_FindString ''foo_keyword:'' \<noteq> [] \<and>
     keywordRE_FindString ''foo_keyword:'' \<notin> set (map fst categories_table) \<longrightarrow>
       scan_line (\<lambda>s. s) init ''foo_keyword:'' =
         Inl (UnknownKeywordType (keywordRE_FindString ''foo_keyword:'')) \<and>
       (\<forall>pre post e.
          scan_lines (\<lambda>s. s) init pre = Inr init \<and>
          fst (ScanLines (stdin_fails e) (stdin e)) = pre @ ''foo_keyword:'' # post \<longrightarrow>
          main (\<lambda>s. s) e =
            \<lparr>stdout = [],
              exit = Some (UnknownKeywordType (keywordRE_FindString ''foo_keyword:''))\<rparr>)"
    by (elim conjE)
  from this [unfolded k2] n2 t2
  have "\<forall>pre post e.
          scan_lines (\<lambda>s. s) init pre = Inr init \<and>
          fst (ScanLines (stdin_fails e) (stdin e)) = pre @ ''foo_keyword:'' # post \<longrightarrow>
          main (\<lambda>s. s) e =
            \<lparr>stdout = [], exit = Some (UnknownKeywordType ''foo_keyword:'')\<rparr>"
    by blast
  with i2 l2 have m2: "main (\<lambda>s. s) \<lparr>stdin = unlines [''foo_keyword:'', ''SELECT''],
       stdin_fails = False, stdout_room = None\<rparr> =
     \<lparr>stdout = [], exit = Some (UnknownKeywordType ''foo_keyword:'')\<rparr>"
    by blast
  from d1 k1 s1 d2 k2 t2 m2 show ?thesis by (intro conjI)
qed

text \<open>
  The line \<^verbatim>\<open>reserved_keyword: SELECT\<close> does not end in \<^verbatim>\<open>_keyword:\<close>, and it is a header
  all the same: it opens a section of category R, in which WHERE is then recorded.
\<close>

theorem header_need_not_end_line:
  \<open>\<not> (keywordRE_FindString ''reserved_keyword: SELECT'' \<noteq> [] \<longleftrightarrow>
       suffix ''_keyword:'' ''reserved_keyword: SELECT'') \<and>
   \<not> suffix ''_keyword:'' ''reserved_keyword: SELECT'' \<and>
   keywordRE_FindString ''reserved_keyword: SELECT'' = ''reserved_keyword:'' \<and>
   map_sum id (\<lambda>st. (keyword st, category st, data st))
     (scan_lines (\<lambda>s. s) init [''reserved_keyword: SELECT'', ''WHERE'']) =
     Inr (True, ''R'', [\<lparr>Lower = ''where'', Match = ''WHERE'', Category = ''R''\<rparr>])\<close>
  by (simp add: eval_simps suffix_to_prefix)

text \<open>
  C6, as the code has it. On a line that is not empty and not a header, read while the
  flag is set (a line of the scanner, so free of newlines: \<open>ScanLines_dot\<close>), the token is
  everything from the first upper-case letter A to Z of the line to the end of the line:
  the leftmost, longest match of ``an upper-case letter followed by
  any characters''. It is a single word only when nothing but word characters follows that
  letter. If the line has such a letter and the token has not been seen, one entry is
  appended with the token as \<^verbatim>\<open>Match\<close>, its lower-case form as \<^verbatim>\<open>Lower\<close> and the current
  category as \<^verbatim>\<open>Category\<close>; otherwise, and so on a line with no upper-case letter, nothing
  changes.
\<close>

theorem recorded_token:
  assumes "list_all dot line" and "keyword st" and "line \<noteq> []"
    and "keywordRE_FindString line = []"
  shows "scan_line mapLower st line =
      (let m = dropWhile (\<lambda>c. \<not> isUpperAZ c) line in
       if m \<noteq> [] \<and> \<not> seen st m then
         Inr (st\<lparr>seen := (seen st)(m := True),
                 data := data st @
                   [\<lparr>Lower = ToLower mapLower m, Match = m, Category = category st\<rparr>]\<rparr>)
       else Inr st) \<and>
    (list_all isWordChar (dropWhile (\<lambda>c. \<not> isUpperAZ c) line) \<longrightarrow>
       dropWhile (\<lambda>c. \<not> isUpperAZ c) line = first_upper_word line) \<and>
    (\<not> list_ex isUpperAZ line \<longrightarrow> scan_line mapLower st line = Inr st)"
proof -
  have m: "pipeRE_FindString line = dropWhile (\<lambda>c. \<not> isUpperAZ c) line"
    using assms(1) by (rule pipeRE_FindString_line)
  have 1: "scan_line mapLower st line =
      (let m = dropWhile (\<lambda>c. \<not> isUpperAZ c) line in
       if m \<noteq> [] \<and> \<not> seen st m then
         Inr (st\<lparr>seen := (seen st)(m := True),
                 data := data st @
                   [\<lparr>Lower = ToLower mapLower m, Match = m, Category = category st\<rparr>]\<rparr>)
       else Inr st)"
    using assms(2,3,4) by (simp add: scan_line_def Let_def m)
  have 2: "list_all isWordChar (dropWhile (\<lambda>c. \<not> isUpperAZ c) line) \<longrightarrow>
       dropWhile (\<lambda>c. \<not> isUpperAZ c) line = first_upper_word line"
  proof
    assume "list_all isWordChar (dropWhile (\<lambda>c. \<not> isUpperAZ c) line)"
    then have "takeWhile isWordChar (dropWhile (\<lambda>c. \<not> isUpperAZ c) line) =
        dropWhile (\<lambda>c. \<not> isUpperAZ c) line"
      by (simp add: list_all_iff)
    then show "dropWhile (\<lambda>c. \<not> isUpperAZ c) line = first_upper_word line"
      by (simp only: first_upper_word_def)
  qed
  have 3: "\<not> list_ex isUpperAZ line \<longrightarrow> scan_line mapLower st line = Inr st"
    using assms(3,4) by (simp add: scan_line_no_token)
  from 1 2 3 show ?thesis by (intro conjI)
qed

theorem recorded_token_witness:
  \<open>list_all dot ''| WHERE'' \<and>
   keyword (init\<lparr>keyword := True, category := ''R''\<rparr>) \<and>
   ''| WHERE'' \<noteq> [] \<and> keywordRE_FindString ''| WHERE'' = [] \<and>
   scan_line (\<lambda>s. s) (init\<lparr>keyword := True, category := ''R''\<rparr>) ''| WHERE'' =
     Inr (init\<lparr>keyword := True, category := ''R'',
       seen := (\<lambda>_. False)(''WHERE'' := True),
       data := [\<lparr>Lower = ''where'', Match = ''WHERE'', Category = ''R''\<rparr>]\<rparr>) \<and>
   ''WHERE'' = first_upper_word ''| WHERE''\<close>
proof -
  have d: "list_all dot ''| WHERE''" by (simp add: dot_def newline_def)
  have k: "keyword (init\<lparr>keyword := True, category := ''R''\<rparr>)" by simp
  have n: "''| WHERE'' \<noteq> []" by simp
  have h: "keywordRE_FindString ''| WHERE'' = []" by (simp add: dot_def newline_def)
  have w: "dropWhile (\<lambda>c. \<not> isUpperAZ c) ''| WHERE'' = ''WHERE''"
    by (simp add: isUpperAZ_def)
  have a: "list_all isWordChar ''WHERE''"
    by (simp add: isWordChar_def isUpperAZ_def)
  note t = recorded_token [OF d k n h, of "\<lambda>s. s", unfolded w Let_def]
  from t have "scan_line (\<lambda>s. s) (init\<lparr>keyword := True, category := ''R''\<rparr>) ''| WHERE'' =
     Inr (init\<lparr>keyword := True, category := ''R'',
       seen := (\<lambda>_. False)(''WHERE'' := True),
       data := [\<lparr>Lower = ''where'', Match = ''WHERE'', Category = ''R''\<rparr>]\<rparr>)"
    by (simp add: init_def ToLower_def isASCII_def lowerASCII_def isUpperAZ_def char_of_def
        bit_Suc_0_iff)
  moreover from t a have "''WHERE'' = first_upper_word ''| WHERE''" by blast
  ultimately show ?thesis using d k n h by (intro conjI)
qed

text \<open>
  In a section, the line \<^verbatim>\<open>| SELECT FROM\<close> records the token \<^verbatim>\<open>SELECT FROM\<close>, which is
  not a word and is not the first upper-case word of the line.
\<close>

theorem token_runs_to_end_of_line:
  \<open>sorted_data (\<lambda>s. s) \<lparr>stdin = unlines [''reserved_keyword:'', ''| SELECT FROM''],
       stdin_fails = False, stdout_room = None\<rparr> =
     Inr [\<lparr>Lower = ''select from'', Match = ''SELECT FROM'', Category = ''R''\<rparr>] \<and>
   first_upper_word ''| SELECT FROM'' = ''SELECT'' \<and>
   ''SELECT FROM'' \<noteq> first_upper_word ''| SELECT FROM'' \<and>
   \<not> list_all isWordChar ''SELECT FROM''\<close>
proof -
  have "scanning (\<lambda>s. s) \<lparr>stdin = unlines [''reserved_keyword:'', ''| SELECT FROM''],
       stdin_fails = False, stdout_room = None\<rparr> =
     Inr \<lparr>keyword = True, category = ''R'', seen = (\<lambda>_. False)(''SELECT FROM'' := True),
       data = [\<lparr>Lower = ''select from'', Match = ''SELECT FROM'', Category = ''R''\<rparr>]\<rparr>"
    by (subst scanning_unlines) (simp_all add: eval_simps)
  then have "sorted_data (\<lambda>s. s) \<lparr>stdin = unlines [''reserved_keyword:'', ''| SELECT FROM''],
       stdin_fails = False, stdout_room = None\<rparr> =
     Inr [\<lparr>Lower = ''select from'', Match = ''SELECT FROM'', Category = ''R''\<rparr>]"
    by (simp add: sorted_data_def sort_Slice_def)
  moreover have "first_upper_word ''| SELECT FROM'' = ''SELECT''"
    by (simp add: first_upper_word_def isWordChar_def isUpperAZ_def isLowerAZ_def isDigit_def)
  moreover have "\<not> list_all isWordChar ''SELECT FROM''"
    by (simp add: isWordChar_def isUpperAZ_def isLowerAZ_def isDigit_def)
  ultimately show ?thesis by simp
qed

text \<open>
  C7. A run has one possible result. Whatever slice \<^verbatim>\<open>sort.Slice\<close> leaves, within its
  contract, the result of a run is the value of the function \<open>main\<close> at the standard input
  and the two ways the streams can fail; nothing else enters. And two runs that both
  return, on the same bytes of standard input, have written the same bytes.
\<close>

theorem run_deterministic:
  "(run mapLower e r1 \<and> run mapLower e r2 \<longrightarrow> r1 = r2) \<and>
   run mapLower e (main mapLower e) \<and>
   (run mapLower e1 r1 \<and> run mapLower e2 r2 \<and> stdin e1 = stdin e2 \<and>
    exit r1 = None \<and> exit r2 = None \<longrightarrow> stdout r1 = stdout r2)"
proof -
  have 1: "run mapLower e r1 \<and> run mapLower e r2 \<longrightarrow> r1 = r2"
    by (simp add: run_iff)
  have 2: "run mapLower e (main mapLower e)"
    by (simp add: run_iff)
  have 3: "stdout r1 = stdout r2"
    if r1: "run mapLower e1 r1" and r2: "run mapLower e2 r2" and i: "stdin e1 = stdin e2"
      and x1: "exit r1 = None" and x2: "exit r2 = None"
  proof -
    from r1 r2 have m1: "r1 = main mapLower e1" and m2: "r2 = main mapLower e2"
      by (simp_all add: run_iff)
    from x1 m1 obtain st1 where s1: "scanning mapLower e1 = Inr st1"
      and o1: "stdout r1 = tmpl (sort_Slice (data st1))"
      by (auto elim: main_returns)
    from x2 m2 obtain st2 where s2: "scanning mapLower e2 = Inr st2"
      and o2: "stdout r2 = tmpl (sort_Slice (data st2))"
      by (auto elim: main_returns)
    have "fst (ScanLines (stdin_fails e1) (stdin e1)) = fst (ScanLines (stdin_fails e2) (stdin e2))"
      unfolding i by (rule ScanLines_tokens)
    with scanning_lines(1) [OF s1] scanning_lines(1) [OF s2] have "st1 = st2" by simp
    with o1 o2 show ?thesis by simp
  qed
  from 1 2 3 show ?thesis by blast
qed

theorem run_deterministic_witness:
  \<open>run (\<lambda>s. s) \<lparr>stdin = unlines [''unreserved_keyword:'', ''NAME''], stdin_fails = False,
       stdout_room = None\<rparr>
     \<lparr>stdout = tmpl [\<lparr>Lower = ''name'', Match = ''NAME'', Category = ''U''\<rparr>], exit = None\<rparr> \<and>
   run (\<lambda>s. s) \<lparr>stdin = unlines [''unreserved_keyword:'', ''NAME''], stdin_fails = False,
       stdout_room = None\<rparr>
     (main (\<lambda>s. s) \<lparr>stdin = unlines [''unreserved_keyword:'', ''NAME''], stdin_fails = False,
       stdout_room = None\<rparr>) \<and>
   \<lparr>stdout = tmpl [\<lparr>Lower = ''name'', Match = ''NAME'', Category = ''U''\<rparr>], exit = None\<rparr> =
     main (\<lambda>s. s) \<lparr>stdin = unlines [''unreserved_keyword:'', ''NAME''], stdin_fails = False,
       stdout_room = None\<rparr>\<close>
proof -
  let ?e = "\<lparr>stdin = unlines [''unreserved_keyword:'', ''NAME''], stdin_fails = False,
       stdout_room = None\<rparr>"
  let ?r = "\<lparr>stdout = tmpl [\<lparr>Lower = ''name'', Match = ''NAME'', Category = ''U''\<rparr>],
       exit = None\<rparr>"
  have sc: "scanning (\<lambda>s. s) ?e =
     Inr \<lparr>keyword = True, category = ''U'', seen = (\<lambda>_. False)(''NAME'' := True),
       data = [\<lparr>Lower = ''name'', Match = ''NAME'', Category = ''U''\<rparr>]\<rparr>"
    by (subst scanning_unlines) (simp_all add: eval_simps)
  have "sort_Slice_contract [\<lparr>Lower = ''name'', Match = ''NAME'', Category = ''U''\<rparr>]
      [\<lparr>Lower = ''name'', Match = ''NAME'', Category = ''U''\<rparr>]"
    by (simp add: sort_Slice_contract_def)
  then have a: "run (\<lambda>s. s) ?e ?r"
    by (auto simp add: run_def sc Execute_def)
  from run_deterministic [of "\<lambda>s. s" ?e ?r "main (\<lambda>s. s) ?e" ?e ?e]
  have b: "run (\<lambda>s. s) ?e (main (\<lambda>s. s) ?e)"
    and c: "run (\<lambda>s. s) ?e ?r \<and> run (\<lambda>s. s) ?e (main (\<lambda>s. s) ?e) \<longrightarrow> ?r = main (\<lambda>s. s) ?e"
    by blast+
  from a b c have "?r = main (\<lambda>s. s) ?e" by blast
  with a b show ?thesis by (intro conjI)
qed

text \<open>
  C8. When scanning ends in a fatal error, which is an unknown header or a failure to read
  standard input and never the error of the template, the run has written nothing. Put the
  other way round: if anything was written, scanning had completed without error, and the
  run either returned or stopped on the error of the template; in the latter case what was
  written is a proper initial part of the template's text.
\<close>

theorem scanning_fatal_writes_nothing:
  "(scanning mapLower e = Inl f \<longrightarrow>
      main mapLower e = \<lparr>stdout = [], exit = Some f\<rparr> \<and> f \<noteq> ExecuteFailed) \<and>
   (exit (main mapLower e) = Some (UnknownKeywordType m) \<longrightarrow> stdout (main mapLower e) = []) \<and>
   (exit (main mapLower e) = Some (ReadingStandardInput x) \<longrightarrow> stdout (main mapLower e) = []) \<and>
   (stdout (main mapLower e) \<noteq> [] \<longrightarrow>
      (\<exists>st. scanning mapLower e = Inr st) \<and>
      (exit (main mapLower e) = None \<or> exit (main mapLower e) = Some ExecuteFailed)) \<and>
   (exit (main mapLower e) = Some ExecuteFailed \<longrightarrow>
      (\<exists>es n. sorted_data mapLower e = Inr es \<and> stdout_room e = Some n \<and>
         n < length (tmpl es) \<and> stdout (main mapLower e) = take n (tmpl es)))"
proof (cases "scanning mapLower e")
  case (Inl g)
  then have m: "main mapLower e = \<lparr>stdout = [], exit = Some g\<rparr>"
    by (simp add: main_def sorted_data_def)
  from Inl have "g \<noteq> ExecuteFailed" by (rule scanning_fatal_kind)
  with Inl m show ?thesis by auto
next
  case (Inr st)
  then have sd: "sorted_data mapLower e = Inr (sort_Slice (data st))"
    by (simp add: sorted_data_def)
  then have m: "main mapLower e = Execute (stdout_room e) (sort_Slice (data st))"
    by (simp add: main_def)
  show ?thesis
    unfolding m Inr sd
    by (auto simp add: Execute_def split: option.splits)
qed

theorem scanning_fatal_writes_nothing_witness:
  \<open>scanning (\<lambda>s. s) \<lparr>stdin = unlines [''reserved_keyword:'', ''SELECT'', ''bogus_keyword:''],
       stdin_fails = False, stdout_room = None\<rparr> = Inl (UnknownKeywordType ''bogus_keyword:'') \<and>
   main (\<lambda>s. s) \<lparr>stdin = unlines [''reserved_keyword:'', ''SELECT'', ''bogus_keyword:''],
       stdin_fails = False, stdout_room = None\<rparr> =
     \<lparr>stdout = [], exit = Some (UnknownKeywordType ''bogus_keyword:'')\<rparr> \<and>
   scanning (\<lambda>s. s) \<lparr>stdin = unlines [''reserved_keyword:'', ''SELECT''],
       stdin_fails = True, stdout_room = None\<rparr> = Inl (ReadingStandardInput ErrRead) \<and>
   main (\<lambda>s. s) \<lparr>stdin = unlines [''reserved_keyword:'', ''SELECT''],
       stdin_fails = True, stdout_room = None\<rparr> =
     \<lparr>stdout = [], exit = Some (ReadingStandardInput ErrRead)\<rparr> \<and>
   main (\<lambda>s. s) \<lparr>stdin = unlines [''reserved_keyword:'', ''SELECT''],
       stdin_fails = False, stdout_room = Some 7\<rparr> =
     \<lparr>stdout = ''// Code'', exit = Some ExecuteFailed\<rparr>\<close>
proof -
  let ?e1 = "\<lparr>stdin = unlines [''reserved_keyword:'', ''SELECT'', ''bogus_keyword:''],
       stdin_fails = False, stdout_room = None\<rparr>"
  let ?e2 = "\<lparr>stdin = unlines [''reserved_keyword:'', ''SELECT''],
       stdin_fails = True, stdout_room = None\<rparr>"
  let ?e3 = "\<lparr>stdin = unlines [''reserved_keyword:'', ''SELECT''],
       stdin_fails = False, stdout_room = Some 7\<rparr>"
  have s1: "scanning (\<lambda>s. s) ?e1 = Inl (UnknownKeywordType ''bogus_keyword:'')"
    by (subst scanning_unlines) (simp_all add: eval_simps)
  have s2: "scanning (\<lambda>s. s) ?e2 = Inl (ReadingStandardInput ErrRead)"
    by (subst scanning_unlines) (simp_all add: eval_simps)
  from scanning_fatal_writes_nothing
    [of "\<lambda>s. s" ?e1 "UnknownKeywordType ''bogus_keyword:''" "[]" ErrRead] s1
  have m1: "main (\<lambda>s. s) ?e1 = \<lparr>stdout = [], exit = Some (UnknownKeywordType ''bogus_keyword:'')\<rparr>"
    by blast
  from scanning_fatal_writes_nothing
    [of "\<lambda>s. s" ?e2 "ReadingStandardInput ErrRead" "[]" ErrRead] s2
  have m2: "main (\<lambda>s. s) ?e2 = \<lparr>stdout = [], exit = Some (ReadingStandardInput ErrRead)\<rparr>"
    by blast
  have "scanning (\<lambda>s. s) ?e3 =
     Inr \<lparr>keyword = True, category = ''R'', seen = (\<lambda>_. False)(''SELECT'' := True),
       data = [\<lparr>Lower = ''select'', Match = ''SELECT'', Category = ''R''\<rparr>]\<rparr>"
    by (subst scanning_unlines) (simp_all add: eval_simps)
  then have m3: "main (\<lambda>s. s) ?e3 = \<lparr>stdout = ''// Code'', exit = Some ExecuteFailed\<rparr>"
    by (simp add: main_def sorted_data_def sort_Slice_def Execute_def tmpl_def tmpl_head_def)
  from s1 m1 s2 m2 m3 show ?thesis by (intro conjI)
qed

text \<open>
  C9. Within a section, the flag is cleared by the empty line and by no other line: after a
  step that does not fail, taken with the flag set, the flag is still set exactly when the
  line was not empty. A line of white space only, such as a single space, changes nothing
  at all, so the loop goes on as if the line were absent and a following line with an
  upper-case letter is recorded.
\<close>

theorem only_empty_line_ends_section:
  "(keyword st \<and> scan_line mapLower st line = Inr st' \<longrightarrow> (keyword st' \<longleftrightarrow> line \<noteq> [])) \<and>
   (scan_line mapLower st [] = Inr (st\<lparr>keyword := False\<rparr>)) \<and>
   (line \<noteq> [] \<and> list_all isSpace line \<longrightarrow>
      scan_line mapLower st line = Inr st \<and>
      scan_lines mapLower st (line # rest) = scan_lines mapLower st rest)"
proof -
  have 1: "keyword st \<and> scan_line mapLower st line = Inr st' \<longrightarrow> (keyword st' \<longleftrightarrow> line \<noteq> [])"
    using scan_line_keyword_after [of st mapLower line st'] by blast
  have 2: "scan_line mapLower st [] = Inr (st\<lparr>keyword := False\<rparr>)"
    by (simp add: scan_line_def)
  have 3: "line \<noteq> [] \<and> list_all isSpace line \<longrightarrow>
      scan_line mapLower st line = Inr st \<and>
      scan_lines mapLower st (line # rest) = scan_lines mapLower st rest"
    by (simp add: scan_line_space)
  from 1 2 3 show ?thesis by (intro conjI)
qed

theorem only_empty_line_ends_section_witness:
  \<open>'' '' \<noteq> [] \<and> list_all isSpace '' '' \<and>
   scan_line (\<lambda>s. s) (init\<lparr>keyword := True, category := ''R''\<rparr>) '' '' =
     Inr (init\<lparr>keyword := True, category := ''R''\<rparr>) \<and>
   keyword (init\<lparr>keyword := True, category := ''R''\<rparr>) \<and>
   scan_lines (\<lambda>s. s) (init\<lparr>keyword := True, category := ''R''\<rparr>) ['' '', ''SELECT''] =
     Inr (init\<lparr>keyword := True, category := ''R'', seen := (\<lambda>_. False)(''SELECT'' := True),
       data := [\<lparr>Lower = ''select'', Match = ''SELECT'', Category = ''R''\<rparr>]\<rparr>) \<and>
   sorted_data (\<lambda>s. s) \<lparr>stdin = unlines [''reserved_keyword:'', '' '', ''SELECT''],
       stdin_fails = False, stdout_room = None\<rparr> =
     Inr [\<lparr>Lower = ''select'', Match = ''SELECT'', Category = ''R''\<rparr>]\<close>
proof -
  have n: "'' '' \<noteq> []" by simp
  have s: "list_all isSpace '' ''" by (simp add: isSpace_def)
  have k: "keyword (init\<lparr>keyword := True, category := ''R''\<rparr>)" by simp
  from only_empty_line_ends_section
    [of "init\<lparr>keyword := True, category := ''R''\<rparr>" "\<lambda>s. s" "'' ''" init "[''SELECT'']"]
  have "'' '' \<noteq> [] \<and> list_all isSpace '' '' \<longrightarrow>
      scan_line (\<lambda>s. s) (init\<lparr>keyword := True, category := ''R''\<rparr>) '' '' =
        Inr (init\<lparr>keyword := True, category := ''R''\<rparr>) \<and>
      scan_lines (\<lambda>s. s) (init\<lparr>keyword := True, category := ''R''\<rparr>) ['' '', ''SELECT''] =
        scan_lines (\<lambda>s. s) (init\<lparr>keyword := True, category := ''R''\<rparr>) [''SELECT'']"
    by (elim conjE)
  with n s have 1: "scan_line (\<lambda>s. s) (init\<lparr>keyword := True, category := ''R''\<rparr>) '' '' =
        Inr (init\<lparr>keyword := True, category := ''R''\<rparr>)"
    and 2: "scan_lines (\<lambda>s. s) (init\<lparr>keyword := True, category := ''R''\<rparr>) ['' '', ''SELECT''] =
        scan_lines (\<lambda>s. s) (init\<lparr>keyword := True, category := ''R''\<rparr>) [''SELECT'']"
    by blast+
  have 3: "scan_lines (\<lambda>s. s) (init\<lparr>keyword := True, category := ''R''\<rparr>) [''SELECT''] =
     Inr (init\<lparr>keyword := True, category := ''R'', seen := (\<lambda>_. False)(''SELECT'' := True),
       data := [\<lparr>Lower = ''select'', Match = ''SELECT'', Category = ''R''\<rparr>]\<rparr>)"
    by (simp add: eval_simps)
  have "scanning (\<lambda>s. s) \<lparr>stdin = unlines [''reserved_keyword:'', '' '', ''SELECT''],
       stdin_fails = False, stdout_room = None\<rparr> =
     Inr \<lparr>keyword = True, category = ''R'', seen = (\<lambda>_. False)(''SELECT'' := True),
       data = [\<lparr>Lower = ''select'', Match = ''SELECT'', Category = ''R''\<rparr>]\<rparr>"
    by (subst scanning_unlines) (simp_all add: eval_simps)
  then have 4: "sorted_data (\<lambda>s. s) \<lparr>stdin = unlines [''reserved_keyword:'', '' '', ''SELECT''],
       stdin_fails = False, stdout_room = None\<rparr> =
     Inr [\<lparr>Lower = ''select'', Match = ''SELECT'', Category = ''R''\<rparr>]"
    by (simp add: sorted_data_def sort_Slice_def)
  from n s 1 k 2 [unfolded 3] 4 show ?thesis by (intro conjI)
qed

text \<open>
  C10. The token pattern finds something exactly on the lines that hold one of the 26
  letters A to Z of ASCII. A line that is not empty, not a header and has no such letter,
  for instance a lower-case word or a word whose first letter is an upper-case letter
  outside ASCII, leaves the state as it is: no entry, no error.
\<close>

theorem token_needs_ascii_upper:
  "(pipeRE_FindString line \<noteq> [] \<longleftrightarrow> list_ex isUpperAZ line) \<and>
   (isUpperAZ c \<longleftrightarrow> c \<in> set ''ABCDEFGHIJKLMNOPQRSTUVWXYZ'') \<and>
   (line \<noteq> [] \<and> keywordRE_FindString line = [] \<and> \<not> list_ex isUpperAZ line \<longrightarrow>
      scan_line mapLower st line = Inr st)"
proof -
  have 1: "pipeRE_FindString line \<noteq> [] \<longleftrightarrow> list_ex isUpperAZ line"
    by (simp add: pipeRE_FindString_Nil_iff)
  have 2: "isUpperAZ c \<longleftrightarrow> c \<in> set ''ABCDEFGHIJKLMNOPQRSTUVWXYZ''"
    by (rule isUpperAZ_letters)
  have 3: "line \<noteq> [] \<and> keywordRE_FindString line = [] \<and> \<not> list_ex isUpperAZ line \<longrightarrow>
      scan_line mapLower st line = Inr st"
    by (simp add: scan_line_no_token)
  from 1 2 3 show ?thesis by (intro conjI)
qed

theorem token_needs_ascii_upper_witness:
  \<open>''select'' \<noteq> [] \<and> keywordRE_FindString ''select'' = [] \<and> \<not> list_ex isUpperAZ ''select'' \<and>
   scan_line (\<lambda>s. s) (init\<lparr>keyword := True, category := ''R''\<rparr>) ''select'' =
     Inr (init\<lparr>keyword := True, category := ''R''\<rparr>) \<and>
   CHR 0xC3 # CHR 0x89 # ''cole'' \<noteq> [] \<and>
   keywordRE_FindString (CHR 0xC3 # CHR 0x89 # ''cole'') = [] \<and>
   \<not> list_ex isUpperAZ (CHR 0xC3 # CHR 0x89 # ''cole'') \<and>
   scan_line (\<lambda>s. s) (init\<lparr>keyword := True, category := ''R''\<rparr>)
       (CHR 0xC3 # CHR 0x89 # ''cole'') =
     Inr (init\<lparr>keyword := True, category := ''R''\<rparr>)\<close>
proof -
  have a: "''select'' \<noteq> [] \<and> keywordRE_FindString ''select'' = [] \<and>
      \<not> list_ex isUpperAZ ''select''"
    by (simp add: dot_def newline_def isUpperAZ_def)
  have b: "CHR 0xC3 # CHR 0x89 # ''cole'' \<noteq> [] \<and>
      keywordRE_FindString (CHR 0xC3 # CHR 0x89 # ''cole'') = [] \<and>
      \<not> list_ex isUpperAZ (CHR 0xC3 # CHR 0x89 # ''cole'')"
    by (simp add: dot_def newline_def isUpperAZ_def)
  from token_needs_ascii_upper
    [of "''select''" "CHR ''A''" "\<lambda>s. s" "init\<lparr>keyword := True, category := ''R''\<rparr>"] a
  have 1: "scan_line (\<lambda>s. s) (init\<lparr>keyword := True, category := ''R''\<rparr>) ''select'' =
     Inr (init\<lparr>keyword := True, category := ''R''\<rparr>)"
    by blast
  from token_needs_ascii_upper
    [of "CHR 0xC3 # CHR 0x89 # ''cole''" "CHR ''A''" "\<lambda>s. s"
      "init\<lparr>keyword := True, category := ''R''\<rparr>"] b
  have 2: "scan_line (\<lambda>s. s) (init\<lparr>keyword := True, category := ''R''\<rparr>)
       (CHR 0xC3 # CHR 0x89 # ''cole'') =
     Inr (init\<lparr>keyword := True, category := ''R''\<rparr>)"
    by blast
  from a 1 b 2 show ?thesis by blast
qed

end
